theory Spec2Isabelle
  imports Complex_Main
begin

section \<open>Conway's Game of Life with genetics and maturity (src/app.js)\<close>

text \<open>
  The model follows \<^verbatim>\<open>src/app.js\<close>: \<^verbatim>\<open>Cell\<close> and \<^verbatim>\<open>Board\<close> are records,
  every method takes the object and returns the mutated object, and a JavaScript
  \<^verbatim>\<open>TypeError\<close> (a property read on \<^verbatim>\<open>undefined\<close>, which is what an out-of-range
  array read leads to) is a value of the result. The canvas calls (\<^verbatim>\<open>draw\<close>) do not
  touch any field of a cell or of the board and are left out. The two loops of
  \<^verbatim>\<open>Board.prototype.update\<close> carry the names \<^verbatim>\<open>findNext\<close> and \<^verbatim>\<open>applyNext\<close> that the later
  revision of the file gives them; their bodies are the same in both revisions.
\<close>

subsection \<open>JavaScript numbers: the doubles that \<^verbatim>\<open>maturity\<close> takes\<close>

text \<open>
  \<^verbatim>\<open>maturity\<close> is a JavaScript Number, an IEEE 754 binary64 value. The only operations on
  it are the literals \<^verbatim>\<open>0.1\<close> and \<^verbatim>\<open>1\<close>, \<^verbatim>\<open>+=\<close> and \<^verbatim>\<open><\<close>, on positive values below 2.
  \<open>Double m e\<close> stands for the positive normal double \<open>m * 2 ^ e\<close> with a 53-bit
  significand \<open>2 ^ 52 \<le> m < 2 ^ 53\<close>; the exponent is not bounded, since no value of the
  program comes near the overflow or the subnormal range. Addition is the exact sum
  rounded to 53 significant bits, ties to even, as IEEE 754 defines it.
\<close>

datatype double = Double (significand: int) (exponent: int)

function bitLength :: "int \<Rightarrow> nat" where
  "bitLength n = (if n \<le> 0 then 0 else Suc (bitLength (n div 2)))"
  by pat_completeness auto
termination
  by (relation "measure nat") auto

definition roundTiesEven :: "int \<Rightarrow> nat \<Rightarrow> int" where
  \<comment> \<open>\<open>s / 2 ^ k\<close> rounded to the nearest integer, a tie to the even one\<close>
  "roundTiesEven s k =
     (let q = s div 2 ^ k; r = s mod 2 ^ k
      in if 2 * r < 2 ^ k then q
         else if 2 * r > 2 ^ k then q + 1
         else if even q then q else q + 1)"

definition normalise :: "int \<Rightarrow> int \<Rightarrow> double" where
  \<comment> \<open>the double nearest to \<open>s * 2 ^ e\<close>, for \<open>s > 0\<close>\<close>
  "normalise s e =
     (let n = int (bitLength s)
      in if n \<le> 53 then Double (s * 2 ^ nat (53 - n)) (e - (53 - n))
         else (let k = nat (n - 53); m = roundTiesEven s k
               in if m = 2 ^ 53 then Double (2 ^ 52) (e + int k + 1)
                  else Double m (e + int k)))"

fun dadd :: "double \<Rightarrow> double \<Rightarrow> double" where
  "dadd (Double m1 e1) (Double m2 e2) =
     (let e = min e1 e2
      in normalise (m1 * 2 ^ nat (e1 - e) + m2 * 2 ^ nat (e2 - e)) e)"

fun dless :: "double \<Rightarrow> double \<Rightarrow> bool" where
  "dless (Double m1 e1) (Double m2 e2) =
     (let e = min e1 e2
      in m1 * 2 ^ nat (e1 - e) < m2 * 2 ^ nat (e2 - e))"

definition lit_0_1 :: double where
  \<comment> \<open>the literal \<^verbatim>\<open>0.1\<close>: \<^verbatim>\<open>0x1.999999999999ap-4\<close>\<close>
  "lit_0_1 = Double 7205759403792794 (- 56)"

definition lit_1 :: double where
  \<comment> \<open>the literal \<^verbatim>\<open>1\<close>: \<^verbatim>\<open>0x1.0000000000000p+0\<close>\<close>
  "lit_1 = Double 4503599627370496 (- 52)"

definition dval :: "double \<Rightarrow> rat" where
  \<comment> \<open>the number a double stands for\<close>
  "dval d = of_int (significand d) * 2 powi (exponent d)"

subsection \<open>Strings\<close>

definition substr :: "string \<Rightarrow> nat \<Rightarrow> nat \<Rightarrow> string" where
  \<comment> \<open>\<^verbatim>\<open>s.substr(start, len)\<close> for \<open>start \<ge> 0\<close>: shorter, or empty, past the end of \<open>s\<close>\<close>
  "substr s start len = take len (drop start s)"

subsection \<open>Cell\<close>

record cell =
  cell_x :: int
  cell_y :: int
  isAlive :: bool
  maturity :: double
  color :: string

definition Cell :: "int \<Rightarrow> int \<Rightarrow> string option \<Rightarrow> cell" where
  \<comment> \<open>\<^verbatim>\<open>color || '#000000'\<close>: the default replaces a missing and an empty colour\<close>
  "Cell x y c =
     \<lparr>cell_x = x, cell_y = y, isAlive = False, maturity = lit_0_1,
      color = (case c of None \<Rightarrow> ''#000000''
               | Some s \<Rightarrow> if s = [] then ''#000000'' else s)\<rparr>"

definition kill :: "cell \<Rightarrow> cell" where
  "kill c = c\<lparr>isAlive := False, maturity := lit_0_1\<rparr>"

definition toggle :: "string \<Rightarrow> cell \<Rightarrow> cell" where
  \<comment> \<open>the first argument is what \<^verbatim>\<open>colorPalette.getColor()\<close> returns\<close>
  "toggle col c =
     (if isAlive c
      then (if color c = col then kill c else c\<lparr>color := col\<rparr>)
      else c\<lparr>isAlive := True, color := col\<rparr>)"

subsection \<open>Board\<close>

datatype error = TypeError

record board =
  width :: int
  height :: int
  cells :: "cell list list"
  next_buf :: "bool list list"  \<comment> \<open>the field \<^verbatim>\<open>next\<close>\<close>

text \<open>
  A cell is an object held by exactly one slot of \<^verbatim>\<open>cells\<close> (the constructor makes a new
  one for each slot and no array is written afterwards), so the model keeps the cell
  itself in the slot and a write to a field of the object is a write to the slot.
\<close>

definition Board :: "int \<Rightarrow> int \<Rightarrow> board" where
  "Board w h =
     \<lparr>width = w, height = h,
      cells = map (\<lambda>x. map (\<lambda>y. Cell x y None) [0..h - 1]) [0..w - 1],
      next_buf = map (\<lambda>x. map (\<lambda>y. False) [0..h - 1]) [0..w - 1]\<rparr>"

definition nth_opt :: "'a list \<Rightarrow> int \<Rightarrow> 'a option" where
  \<comment> \<open>\<^verbatim>\<open>xs[i]\<close>: \<open>None\<close> is \<^verbatim>\<open>undefined\<close>\<close>
  "nth_opt xs i = (if 0 \<le> i \<and> i < int (length xs) then Some (xs ! nat i) else None)"

definition cellAt :: "board \<Rightarrow> int \<Rightarrow> int \<Rightarrow> error + cell" where
  \<comment> \<open>\<^verbatim>\<open>this.cells[i][j]\<close> followed by a property read or a method call on the result:
      \<^verbatim>\<open>undefined[j]\<close> and \<^verbatim>\<open>undefined.isAlive\<close> both throw a TypeError\<close>
  "cellAt b i j =
     (case nth_opt (cells b) i of
        None \<Rightarrow> Inl TypeError
      | Some col \<Rightarrow> (case nth_opt col j of None \<Rightarrow> Inl TypeError | Some c \<Rightarrow> Inr c))"

definition setCell :: "board \<Rightarrow> int \<Rightarrow> int \<Rightarrow> cell \<Rightarrow> board" where
  \<comment> \<open>the object read from \<^verbatim>\<open>cells[i][j]\<close> after its fields were assigned\<close>
  "setCell b i j c = b\<lparr>cells := (cells b)[nat i := (cells b ! nat i)[nat j := c]]\<rparr>"

definition js_set :: "bool list \<Rightarrow> int \<Rightarrow> bool \<Rightarrow> bool list" where
  \<comment> \<open>\<^verbatim>\<open>col[j] = v\<close>: past the end the array grows, and the holes read as \<^verbatim>\<open>undefined\<close>,
      which the conditions of \<^verbatim>\<open>update\<close> (the only readers) take as false; a negative
      index is a property of its own and no element\<close>
  "js_set col j v =
     (if j < 0 then col
      else if j < int (length col) then col[nat j := v]
      else col @ replicate (nat j - length col) False @ [v])"

type_synonym 'a action = "board \<Rightarrow> (error + 'a) \<times> board"

definition ret :: "'a \<Rightarrow> 'a action" where
  "ret v b = (Inr v, b)"

definition bindS :: "'a action \<Rightarrow> ('a \<Rightarrow> 'b action) \<Rightarrow> 'b action" where
  \<comment> \<open>sequencing: an exception ends the run and keeps the state reached\<close>
  "bindS m f b = (case m b of (Inl e, b') \<Rightarrow> (Inl e, b') | (Inr v, b') \<Rightarrow> f v b')"

definition readCell :: "int \<Rightarrow> int \<Rightarrow> cell action" where
  "readCell i j b = (cellAt b i j, b)"

definition writeCell :: "int \<Rightarrow> int \<Rightarrow> cell \<Rightarrow> unit action" where
  "writeCell i j c b = (Inr (), setCell b i j c)"

definition writeNext :: "int \<Rightarrow> int \<Rightarrow> bool \<Rightarrow> unit action" where
  \<comment> \<open>\<^verbatim>\<open>this.next[i][j] = v\<close>\<close>
  "writeNext i j v b =
     (case nth_opt (next_buf b) i of
        None \<Rightarrow> (Inl TypeError, b)
      | Some col \<Rightarrow> (Inr (), b\<lparr>next_buf := (next_buf b)[nat i := js_set col j v]\<rparr>))"

function forLoop :: "int \<Rightarrow> int \<Rightarrow> (int \<Rightarrow> unit action) \<Rightarrow> unit action" where
  \<comment> \<open>\<^verbatim>\<open>for (var i = i0; i < n; i++) body\<close>; the bounds \<^verbatim>\<open>this.width\<close> and \<^verbatim>\<open>this.height\<close>
      are never assigned after construction\<close>
  "forLoop i n body b =
     (if i < n
      then (case body i b of
              (Inl e, b') \<Rightarrow> (Inl e, b')
            | (Inr u, b') \<Rightarrow> forLoop (i + 1) n body b')
      else (Inr (), b))"
  by pat_completeness auto
termination
  by (relation "measure (\<lambda>(i, n, body, b). nat (n - i))") auto

definition clear :: "unit action" where
  "clear b =
     forLoop 0 (width b) (\<lambda>x.
       forLoop 0 (height b) (\<lambda>y.
         bindS (readCell x y) (\<lambda>c. writeCell x y (kill c)))) b"

subsubsection \<open>getLivingNeighbors\<close>

definition thenE :: "error + 'a \<Rightarrow> ('a \<Rightarrow> error + 'b) \<Rightarrow> error + 'b" where
  "thenE m f = (case m of Inl e \<Rightarrow> Inl e | Inr v \<Rightarrow> f v)"

definition visit :: "board \<Rightarrow> bool \<Rightarrow> int \<Rightarrow> int \<Rightarrow> cell list \<Rightarrow> error + cell list" where
  \<comment> \<open>one of the eight blocks
      \<^verbatim>\<open>if (guard) { cell = cells[i][j]; if (cell.isAlive) aliveNeighbors.push(cell); }\<close>\<close>
  "visit b guard i j aliveNeighbors =
     (if guard
      then (case cellAt b i j of
              Inl e \<Rightarrow> Inl e
            | Inr c \<Rightarrow> Inr (if isAlive c then aliveNeighbors @ [c] else aliveNeighbors))
      else Inr aliveNeighbors)"

definition collectNeighbors :: "board \<Rightarrow> int \<Rightarrow> int \<Rightarrow> error + cell list" where
  \<comment> \<open>left, top left, top, top right, right, bottom right, bottom, bottom left\<close>
  "collectNeighbors b x y =
     thenE (visit b (x \<noteq> 0) (x - 1) y []) (\<lambda>a.
     thenE (visit b (x \<noteq> 0 \<and> y \<noteq> 0) (x - 1) (y - 1) a) (\<lambda>a.
     thenE (visit b (y \<noteq> 0) x (y - 1) a) (\<lambda>a.
     thenE (visit b (x \<noteq> width b - 1 \<and> y \<noteq> 0) (x + 1) (y - 1) a) (\<lambda>a.
     thenE (visit b (x \<noteq> width b - 1) (x + 1) y a) (\<lambda>a.
     thenE (visit b (x \<noteq> width b - 1 \<and> y \<noteq> height b - 1) (x + 1) (y + 1) a) (\<lambda>a.
     thenE (visit b (y \<noteq> height b - 1) x (y + 1) a) (\<lambda>a.
     visit b (x \<noteq> 0 \<and> y \<noteq> height b - 1) (x - 1) (y + 1) a)))))))"

definition inheritColor :: "cell list \<Rightarrow> nat \<Rightarrow> string" where
  \<comment> \<open>\<^verbatim>\<open>'#'\<close> followed by \<^verbatim>\<open>aliveNeighbors[i].color.substr(i * 2 + 1, 2)\<close> for
      \<open>i = 0, \<dots>, countLiving - 1\<close>\<close>
  "inheritColor aliveNeighbors countLiving =
     foldl (\<lambda>c i. c @ substr (color (aliveNeighbors ! i)) (i * 2 + 1) 2) ''#'' [0..<countLiving]"

definition getLivingNeighbors :: "int \<Rightarrow> int \<Rightarrow> nat action" where
  \<comment> \<open>\<^verbatim>\<open>currentCell = cells[x][y]\<close> throws when the column is missing; a missing cell
      is noticed at \<^verbatim>\<open>currentCell.isAlive\<close>, after the neighbours were read. The colour is
      assigned to a dead \<^verbatim>\<open>currentCell\<close> only, and the cells of \<^verbatim>\<open>aliveNeighbors\<close> are alive,
      so none of them is the object being written while their colours are read\<close>
  "getLivingNeighbors x y b =
     (case nth_opt (cells b) x of
        None \<Rightarrow> (Inl TypeError, b)
      | Some col \<Rightarrow>
          (case collectNeighbors b x y of
             Inl e \<Rightarrow> (Inl e, b)
           | Inr aliveNeighbors \<Rightarrow>
               (let countLiving = length aliveNeighbors
                in case nth_opt col y of
                     None \<Rightarrow> (Inl TypeError, b)
                   | Some currentCell \<Rightarrow>
                       if \<not> isAlive currentCell \<and> countLiving = 3
                       then (Inr countLiving,
                             setCell b x y
                               (currentCell\<lparr>color := inheritColor aliveNeighbors countLiving\<rparr>))
                       else (Inr countLiving, b))))"

subsubsection \<open>update\<close>

definition findNextCell :: "int \<Rightarrow> int \<Rightarrow> unit action" where
  \<comment> \<open>\<^verbatim>\<open>this.next[x][y] = this.cells[x][y].isAlive && this.getLivingNeighbors(x, y) === 2
      || this.getLivingNeighbors(x, y) === 3\<close>: the target column \<^verbatim>\<open>this.next[x]\<close> is looked
      up first (a missing one throws), then comes \<^verbatim>\<open>(A && B) || C\<close> with its short cuts, so
      the neighbours are counted once for a live cell with two of them and for a dead
      cell, and twice otherwise\<close>
  "findNextCell x y =
     bindS (\<lambda>b. (case nth_opt (next_buf b) x of None \<Rightarrow> Inl TypeError | Some col \<Rightarrow> Inr (), b))
       (\<lambda>_. bindS (readCell x y)
       (\<lambda>c. bindS (if isAlive c then bindS (getLivingNeighbors x y) (\<lambda>n. ret (n = 2))
                    else ret False)
       (\<lambda>two. if two then writeNext x y True
               else bindS (getLivingNeighbors x y) (\<lambda>n. writeNext x y (n = 3)))))"

definition findNext :: "unit action" where
  "findNext b =
     forLoop 0 (width b) (\<lambda>x. forLoop 0 (height b) (\<lambda>y. findNextCell x y)) b"

definition applyCell :: "cell \<Rightarrow> bool \<Rightarrow> cell" where
  "applyCell c aliveNextGen =
     (if isAlive c \<and> aliveNextGen
      then (if dless (maturity c) lit_1 then c\<lparr>maturity := dadd (maturity c) lit_0_1\<rparr> else c)
      else if isAlive c \<and> \<not> aliveNextGen then kill c
      else if \<not> isAlive c \<and> aliveNextGen then c\<lparr>isAlive := True\<rparr>
      else c)"

definition applyNextCell :: "int \<Rightarrow> int \<Rightarrow> unit action" where
  \<comment> \<open>\<^verbatim>\<open>cell = this.cells[x][y]; aliveNextGen = this.next[x][y]\<close>: a missing column throws,
      a missing entry of \<^verbatim>\<open>next\<close> is \<^verbatim>\<open>undefined\<close> and counts as false\<close>
  "applyNextCell x y b =
     (case nth_opt (cells b) x of
        None \<Rightarrow> (Inl TypeError, b)
      | Some col \<Rightarrow>
          (case nth_opt (next_buf b) x of
             None \<Rightarrow> (Inl TypeError, b)
           | Some ncol \<Rightarrow>
               (let aliveNextGen = (case nth_opt ncol y of None \<Rightarrow> False | Some v \<Rightarrow> v)
                in case nth_opt col y of
                     None \<Rightarrow> (Inl TypeError, b)
                   | Some c \<Rightarrow> (Inr (), setCell b x y (applyCell c aliveNextGen)))))"

definition applyNext :: "unit action" where
  "applyNext b =
     forLoop 0 (width b) (\<lambda>x. forLoop 0 (height b) (\<lambda>y. applyNextCell x y)) b"

definition update :: "unit action" where
  "update = bindS findNext (\<lambda>_. applyNext)"

definition clickCell :: "int \<Rightarrow> int \<Rightarrow> string \<Rightarrow> unit action" where
  \<comment> \<open>\<^verbatim>\<open>this.cells[x][y].toggle()\<close> with the colour the palette returns\<close>
  "clickCell x y col = bindS (readCell x y) (\<lambda>c. writeCell x y (toggle col c))"

section \<open>Notions the properties are stated with\<close>

text \<open>
  None of the following is code of the program. \<open>wf_board\<close> is the shape the constructor
  gives a board and that no method changes; \<open>livingNeighbors\<close> and \<open>lifeRule\<close> state
  the neighbourhood and the rule of the Game of Life on their own, to compare the program
  with; \<open>reachable\<close> collects the boards the program can be in; the rest names what
  one pass does to one cell, the invariants of the loops, and the boards of the
  examples.
\<close>

definition inBounds :: "board \<Rightarrow> int \<Rightarrow> int \<Rightarrow> bool" where
  "inBounds b i j = (0 \<le> i \<and> i < width b \<and> 0 \<le> j \<and> j < height b)"

definition wf_board :: "board \<Rightarrow> bool" where
  "wf_board b =
     (0 \<le> width b \<and> 0 \<le> height b \<and>
      length (cells b) = nat (width b) \<and>
      list_all (\<lambda>col. length col = nat (height b)) (cells b) \<and>
      length (next_buf b) = nat (width b) \<and>
      list_all (\<lambda>col. length col = nat (height b)) (next_buf b))"

definition cellv :: "board \<Rightarrow> int \<Rightarrow> int \<Rightarrow> cell" where
  "cellv b i j = cells b ! nat i ! nat j"

definition nextv :: "board \<Rightarrow> int \<Rightarrow> int \<Rightarrow> bool" where
  "nextv b i j = next_buf b ! nat i ! nat j"

definition alive :: "board \<Rightarrow> int \<Rightarrow> int \<Rightarrow> bool" where
  "alive b i j = (inBounds b i j \<and> isAlive (cellv b i j))"

definition neighborCoords :: "int \<Rightarrow> int \<Rightarrow> (int \<times> int) list" where
  "neighborCoords x y =
     [(x - 1, y), (x - 1, y - 1), (x, y - 1), (x + 1, y - 1),
      (x + 1, y), (x + 1, y + 1), (x, y + 1), (x - 1, y + 1)]"

definition livingNeighbors :: "board \<Rightarrow> int \<Rightarrow> int \<Rightarrow> cell list" where
  "livingNeighbors b x y =
     map (\<lambda>(i, j). cellv b i j) (filter (\<lambda>(i, j). alive b i j) (neighborCoords x y))"

definition lifeRule :: "bool \<Rightarrow> nat \<Rightarrow> bool" where
  "lifeRule a n = (if a then n = 2 \<or> n = 3 else n = 3)"

definition recolor :: "board \<Rightarrow> int \<Rightarrow> int \<Rightarrow> board" where
  "recolor b x y =
     (if \<not> isAlive (cellv b x y) \<and> length (livingNeighbors b x y) = 3
      then setCell b x y ((cellv b x y)\<lparr>color := inheritColor (livingNeighbors b x y) 3\<rparr>)
      else b)"

definition setNext :: "board \<Rightarrow> int \<Rightarrow> int \<Rightarrow> bool \<Rightarrow> board" where
  "setNext b i j v = b\<lparr>next_buf := (next_buf b)[nat i := (next_buf b ! nat i)[nat j := v]]\<rparr>"

definition pass1Cell :: "board \<Rightarrow> int \<Rightarrow> int \<Rightarrow> cell" where
  "pass1Cell b i j =
     (if \<not> isAlive (cellv b i j) \<and> length (livingNeighbors b i j) = 3
      then (cellv b i j)\<lparr>color := inheritColor (livingNeighbors b i j) 3\<rparr>
      else cellv b i j)"

definition nextRule :: "board \<Rightarrow> int \<Rightarrow> int \<Rightarrow> bool" where
  "nextRule b i j = lifeRule (isAlive (cellv b i j)) (length (livingNeighbors b i j))"

definition proc :: "int \<Rightarrow> int \<Rightarrow> int \<Rightarrow> int \<Rightarrow> bool" where
  "proc X Y i j = (i < X \<or> (i = X \<and> j < Y))"

definition Inv1 :: "board \<Rightarrow> int \<Rightarrow> int \<Rightarrow> board \<Rightarrow> bool" where
  "Inv1 b0 X Y b =
     (wf_board b \<and> width b = width b0 \<and> height b = height b0 \<and>
      (\<forall>i j. inBounds b0 i j \<longrightarrow>
         cellv b i j = (if proc X Y i j then pass1Cell b0 i j else cellv b0 i j) \<and>
         (proc X Y i j \<longrightarrow> nextv b i j = nextRule b0 i j)))"

definition Inv2 :: "(int \<Rightarrow> int \<Rightarrow> cell \<Rightarrow> cell) \<Rightarrow> board \<Rightarrow> int \<Rightarrow> int \<Rightarrow> board \<Rightarrow> bool" where
  "Inv2 F b0 X Y b =
     (wf_board b \<and> width b = width b0 \<and> height b = height b0 \<and> next_buf b = next_buf b0 \<and>
      (\<forall>i j. inBounds b0 i j \<longrightarrow>
         cellv b i j = (if proc X Y i j then F i j (cellv b0 i j) else cellv b0 i j)))"

definition neighborCount :: "board \<Rightarrow> int \<Rightarrow> int \<Rightarrow> nat" where
  "neighborCount b x y = length (livingNeighbors b x y)"

definition cellOk :: "cell \<Rightarrow> bool" where
  "cellOk c = (isAlive c \<or> maturity c = lit_0_1)"

inductive reachable :: "board \<Rightarrow> bool" where
  init: "1 \<le> w \<Longrightarrow> 1 \<le> h \<Longrightarrow> reachable (Board w h)"
| upd: "reachable b \<Longrightarrow> reachable (snd (update b))"
| click: "reachable b \<Longrightarrow> reachable (snd (clickCell x y col b))"
| clr: "reachable b \<Longrightarrow> reachable (snd (clear b))"
| killed: "reachable b \<Longrightarrow> inBounds b x y \<Longrightarrow> reachable (setCell b x y (kill (cellv b x y)))"

definition corner3 :: board where
  \<comment> \<open>a 2 by 2 board after three clicks: (0,0), (0,1) and (1,0) alive, (1,1) dead\<close>
  "corner3 =
     snd (clickCell 1 0 ''#778899''
       (snd (clickCell 0 1 ''#112233''
         (snd (clickCell 0 0 ''#445566'' (Board 2 2))))))"

definition allDead :: "board \<Rightarrow> bool" where
  "allDead b = list_all (list_all (\<lambda>c. \<not> isAlive c)) (cells b)"

definition single :: board where
  \<comment> \<open>the 1 by 1 board with its only cell clicked alive\<close>
  "single = snd (clickCell 0 0 ''#ff0000'' (Board 1 1))"

definition revived :: board where
  \<comment> \<open>\<open>corner3\<close> after one update, then a click on (0,0) with its own colour\<close>
  "revived = snd (clickCell 0 0 ''#445566'' (snd (update corner3)))"

definition red :: "string \<Rightarrow> string" where
  "red s = substr s 1 2"

definition green :: "string \<Rightarrow> string" where
  "green s = substr s 3 2"

definition blue :: "string \<Rightarrow> string" where
  "blue s = substr s 5 2"

definition allCoords :: "int \<Rightarrow> int \<Rightarrow> (int \<times> int) list" where
  "allCoords W H = List.product [0..W - 1] [0..H - 1]"

definition aliveSet :: "board \<Rightarrow> (int \<times> int) set" where
  "aliveSet b = set (filter (\<lambda>(i, j). alive b i j) (allCoords (width b) (height b)))"

definition lifeStep :: "int \<Rightarrow> int \<Rightarrow> (int \<times> int) set \<Rightarrow> (int \<times> int) set" where
  "lifeStep W H S =
     set (filter (\<lambda>(i, j). lifeRule ((i, j) \<in> S) (length (filter (\<lambda>p. p \<in> S) (neighborCoords i j))))
            (allCoords W H))"

definition blinker :: board where
  \<comment> \<open>the 5 by 5 board after clicks on (1,2), (2,2) and (3,2)\<close>
  "blinker =
     snd (clickCell 3 2 ''#778899''
       (snd (clickCell 2 2 ''#112233''
         (snd (clickCell 1 2 ''#445566'' (Board 5 5))))))"

text \<open>
  The game loop calls \<^verbatim>\<open>board.update()\<close> at every tick. \<open>history n x y b\<close> lists what the
  cell \<open>(x, y)\<close> is after each of \<open>n\<close> successive updates: alive or not, and its maturity.
\<close>

fun history :: "nat \<Rightarrow> int \<Rightarrow> int \<Rightarrow> board \<Rightarrow> (bool \<times> double) list" where
  "history 0 x y b = []"
| "history (Suc n) x y b =
     (case update b of
        (Inl e, b') \<Rightarrow> []
      | (Inr u, b') \<Rightarrow> (isAlive (cellv b' x y), maturity (cellv b' x y)) # history n x y b')"

section \<open>The doubles\<close>

declare forLoop.simps [simp del]

declare bitLength.simps [simp del]

text \<open>
  \<open>lit_0_1\<close> is the double nearest to one tenth (it is off by less than half a unit in
  the last place), and \<^verbatim>\<open>0.1 + 0.1\<close> and \<^verbatim>\<open>0.2 + 0.1\<close> come out as they do on every IEEE 754
  machine: \<^verbatim>\<open>0.2\<close> and \<^verbatim>\<open>0.30000000000000004\<close>.
\<close>

lemma dadd_known_sums:
  "dadd lit_0_1 lit_0_1 = Double 7205759403792794 (- 55)"
  "dadd (Double 7205759403792794 (- 55)) lit_0_1 = Double 5404319552844596 (- 54)"
  by code_simp+

lemma lit_values:
  "dval lit_1 = 1" "\<bar>dval lit_0_1 - 1 / 10\<bar> < 2 powi (- 57)"
  by (simp_all add: dval_def lit_1_def lit_0_1_def power_int_minus)

text \<open>
  In general, the sum that \<open>dadd\<close> returns has a 53-bit significand and lies within half
  a unit in its last place of the exact sum, a tie going to the even significand; and
  \<open>dless\<close> compares the numbers the doubles stand for.
\<close>

lemma roundTiesEven_nearest:
  "\<bar>roundTiesEven s k * 2 ^ k - s\<bar> * 2 \<le> 2 ^ k"
proof -
  define q where "q = s div 2 ^ k"
  define r where "r = s mod 2 ^ k"
  have s: "s = q * 2 ^ k + r" by (simp only: q_def r_def div_mult_mod_eq)
  have r: "0 \<le> r" "r < 2 ^ k" by (simp_all add: r_def)
  have "roundTiesEven s k = q \<and> 2 * r \<le> 2 ^ k \<or> roundTiesEven s k = q + 1 \<and> 2 ^ k \<le> 2 * r"
    by (auto simp add: roundTiesEven_def Let_def q_def[symmetric] r_def[symmetric])
  then show ?thesis
    using r by (auto simp add: s algebra_simps)
qed

lemma roundTiesEven_tie:
  "2 * (s mod 2 ^ k) = 2 ^ k \<Longrightarrow> even (roundTiesEven s k)"
  by (auto simp add: roundTiesEven_def Let_def)

lemma bitLength_pos: "0 < s \<Longrightarrow> 0 < bitLength s"
  by (subst bitLength.simps) simp

lemma bitLength_bounds:
  "0 < s \<Longrightarrow> 2 ^ (bitLength s - 1) \<le> s \<and> s < 2 ^ bitLength s"
proof (induction s rule: bitLength.induct)
  case (1 n)
  show ?case
  proof (cases "n div 2 = 0")
    case True
    then have "n = 1" using 1(2) by linarith
    then show ?thesis
      by (subst bitLength.simps, subst (2) bitLength.simps, subst bitLength.simps, subst (2) bitLength.simps) simp
  next
    case False
    then have pos: "0 < n div 2" using 1(2) by linarith
    from 1(1)[OF _ pos] 1(2)
    have ih: "2 ^ (bitLength (n div 2) - 1) \<le> n div 2" "n div 2 < 2 ^ bitLength (n div 2)"
      by simp_all
    have bl: "bitLength n = Suc (bitLength (n div 2))"
      using 1(2) by (subst bitLength.simps) simp
    have p: "0 < bitLength (n div 2)" using pos by (rule bitLength_pos)
    then have e: "(2::int) ^ bitLength (n div 2) = 2 * 2 ^ (bitLength (n div 2) - 1)"
      by (cases "bitLength (n div 2)") simp_all
    show ?thesis
      using ih by (simp add: bl e) linarith
  qed
qed

lemma div_between:
  fixes s P A B :: int
  assumes P: "0 < P" and lo: "A * P \<le> s" and hi: "s < B * P"
  shows "A \<le> s div P \<and> s div P < B"
proof -
  define q where "q = s div P"
  define r where "r = s mod P"
  have s: "s = q * P + r" by (simp only: q_def r_def div_mult_mod_eq)
  have r: "0 \<le> r" "r < P" using P by (simp_all add: r_def)
  have "q * P + r < (q + 1) * P" using r by (simp add: algebra_simps)
  then have "A * P < (q + 1) * P" using lo s by linarith
  then have "A < q + 1" using P by (simp add: mult_less_cancel_right_disj)
  moreover have "q * P < B * P" using hi s r by linarith
  then have "q < B" using P by (simp add: mult_less_cancel_right_disj)
  ultimately show ?thesis by (simp add: q_def)
qed

lemma roundTiesEven_range:
  assumes "2 ^ (52 + k) \<le> s" and "s < 2 ^ (53 + k)"
  shows "2 ^ 52 \<le> roundTiesEven s k \<and> roundTiesEven s k \<le> 2 ^ 53"
proof -
  have "2 ^ 52 \<le> s div 2 ^ k \<and> s div 2 ^ k < 2 ^ 53"
    using assms by (intro div_between) (simp_all add: power_add)
  moreover have "roundTiesEven s k = s div 2 ^ k \<or> roundTiesEven s k = s div 2 ^ k + 1"
    by (auto simp add: roundTiesEven_def Let_def)
  ultimately show ?thesis by auto
qed

lemma normalise_nearest:
  assumes "0 < s"
  shows "2 ^ 52 \<le> significand (normalise s e) \<and> significand (normalise s e) < 2 ^ 53 \<and>
         \<bar>dval (normalise s e) - of_int s * 2 powi e\<bar> * 2 \<le> 2 powi exponent (normalise s e)"
proof (cases "bitLength s \<le> 53")
  case True
  define j where "j = 53 - bitLength s"
  have b: "bitLength s = 53 - j" "j \<le> 52"
    using True bitLength_pos[OF assms] by (simp_all add: j_def)
  have n: "normalise s e = Double (s * 2 ^ j) (e - int j)"
    using True by (simp add: normalise_def Let_def j_def nat_diff_distrib' of_nat_diff)
  from bitLength_bounds[OF assms] have "2 ^ (52 - j) \<le> s" "s < 2 ^ (53 - j)"
    by (simp_all add: b)
  then have "2 ^ (52 - j) * 2 ^ j \<le> s * 2 ^ j" "s * 2 ^ j < 2 ^ (53 - j) * (2::int) ^ j"
    by simp_all
  then have sig: "2 ^ 52 \<le> s * 2 ^ j" "s * 2 ^ j < 2 ^ 53"
    using b(2) by (simp_all add: power_add[symmetric])
  have "dval (normalise s e) = of_int s * 2 powi e"
    by (simp add: n dval_def power_int_diff)
  then show ?thesis using sig by (simp add: n)
next
  case False
  define k where "k = bitLength s - 53"
  have b: "bitLength s = 53 + k" using False by (simp add: k_def)
  define m where "m = roundTiesEven s k"
  from bitLength_bounds[OF assms] have "2 ^ (52 + k) \<le> s" "s < 2 ^ (53 + k)"
    by (simp_all add: b)
  then have mr: "2 ^ 52 \<le> m" "m \<le> 2 ^ 53"
    using roundTiesEven_range[of k s] by (simp_all add: m_def)
  have near: "\<bar>m * 2 ^ k - s\<bar> * 2 \<le> 2 ^ k"
    unfolding m_def by (rule roundTiesEven_nearest)
  have n: "normalise s e = (if m = 2 ^ 53 then Double (2 ^ 52) (e + int k + 1) else Double m (e + int k))"
    using False by (simp add: normalise_def Let_def b m_def)
  have val: "dval (normalise s e) = of_int (m * 2 ^ k) * 2 powi e"
    by (simp add: n dval_def power_int_add)
  have ex: "(2::rat) powi (e + int k) \<le> 2 powi exponent (normalise s e)"
    by (simp add: n power_int_add)
  have "\<bar>dval (normalise s e) - of_int s * 2 powi e\<bar> * 2
          = of_int (\<bar>m * 2 ^ k - s\<bar> * 2) * 2 powi e"
    by (simp add: val abs_mult left_diff_distrib[symmetric] del: of_int_mult of_int_diff)
      (simp add: abs_mult left_diff_distrib[symmetric])
  also have "\<dots> \<le> of_int (2 ^ k) * 2 powi e"
    using near by (intro mult_right_mono) (simp_all del: of_int_mult of_int_diff)
  also have "\<dots> = 2 powi (e + int k)" by (simp add: power_int_add)
  finally have "\<bar>dval (normalise s e) - of_int s * 2 powi e\<bar> * 2 \<le> 2 powi exponent (normalise s e)"
    using ex by linarith
  then show ?thesis using mr by (auto simp add: n)
qed

lemma scale_up:
  fixes e e1 :: int
  assumes "e \<le> e1"
  shows "(of_int (m * 2 ^ nat (e1 - e)) :: rat) * 2 powi e = of_int m * 2 powi e1"
proof -
  have "(2::rat) ^ nat (e1 - e) = 2 powi (e1 - e)"
    using assms by (simp add: power_int_def)
  then have "(of_int (m * 2 ^ nat (e1 - e)) :: rat) * 2 powi e = of_int m * (2 powi (e1 - e) * 2 powi e)"
    by simp
  also have "(2::rat) powi (e1 - e) * 2 powi e = 2 powi e1"
    by (simp add: power_int_add[symmetric])
  finally show ?thesis .
qed

lemma dadd_nearest:
  assumes "0 < m1" and "0 < m2"
  shows "2 ^ 52 \<le> significand (dadd (Double m1 e1) (Double m2 e2)) \<and>
         significand (dadd (Double m1 e1) (Double m2 e2)) < 2 ^ 53 \<and>
         \<bar>dval (dadd (Double m1 e1) (Double m2 e2)) - (dval (Double m1 e1) + dval (Double m2 e2))\<bar> * 2
           \<le> 2 powi exponent (dadd (Double m1 e1) (Double m2 e2))"
proof -
  define e where "e = min e1 e2"
  define s where "s = m1 * 2 ^ nat (e1 - e) + m2 * 2 ^ nat (e2 - e)"
  have d: "dadd (Double m1 e1) (Double m2 e2) = normalise s e"
    by (simp add: Let_def s_def e_def)
  have pos: "0 < s"
    using assms by (simp add: s_def add_pos_pos)
  have le: "e \<le> e1" "e \<le> e2" by (simp_all add: e_def)
  have "(of_int s :: rat) * 2 powi e =
          of_int (m1 * 2 ^ nat (e1 - e)) * 2 powi e + of_int (m2 * 2 ^ nat (e2 - e)) * 2 powi e"
    by (simp add: s_def distrib_right)
  also have "\<dots> = dval (Double m1 e1) + dval (Double m2 e2)"
    by (simp only: scale_up[OF le(1)] scale_up[OF le(2)] dval_def double.sel)
  finally have "(of_int s :: rat) * 2 powi e = dval (Double m1 e1) + dval (Double m2 e2)" .
  then show ?thesis
    unfolding d using normalise_nearest[OF pos, of e] by simp
qed

lemma dless_dval:
  "dless (Double m1 e1) (Double m2 e2) \<longleftrightarrow> dval (Double m1 e1) < dval (Double m2 e2)"
proof -
  define e where "e = min e1 e2"
  have le: "e \<le> e1" "e \<le> e2" by (simp_all add: e_def)
  have p: "(0::rat) < 2 powi e" by simp
  have "dless (Double m1 e1) (Double m2 e2) \<longleftrightarrow>
          (of_int (m1 * 2 ^ nat (e1 - e)) :: rat) < of_int (m2 * 2 ^ nat (e2 - e))"
    by (simp add: Let_def e_def del: of_int_mult)
  also have "\<dots> \<longleftrightarrow> (of_int (m1 * 2 ^ nat (e1 - e)) :: rat) * 2 powi e
                        < of_int (m2 * 2 ^ nat (e2 - e)) * 2 powi e"
    by (rule mult_less_cancel_right_pos[OF p, symmetric])
  also have "\<dots> \<longleftrightarrow> dval (Double m1 e1) < dval (Double m2 e2)"
    by (simp only: scale_up[OF le(1)] scale_up[OF le(2)] dval_def double.sel)
  finally show ?thesis .
qed

section \<open>Loops, grids and the two passes\<close>

lemma forLoop_rule:
  assumes "I i b" and "i \<le> n"
    and step: "\<And>j s. i \<le> j \<Longrightarrow> j < n \<Longrightarrow> I j s \<Longrightarrow> \<exists>s'. body j s = (Inr (), s') \<and> I (j + 1) s'"
  shows "\<exists>s'. forLoop i n body b = (Inr (), s') \<and> I n s'"
  using assms(1,2) step
proof (induction "nat (n - i)" arbitrary: i b)
  case 0
  then have "i = n" by simp
  with 0 show ?case by (simp add: forLoop.simps)
next
  case (Suc k)
  then have lt: "i < n" by linarith
  from Suc.prems(3)[OF order_refl lt Suc.prems(1)]
  obtain s1 where s1: "body i b = (Inr (), s1)" "I (i + 1) s1" by blast
  have "\<exists>s'. forLoop (i + 1) n body s1 = (Inr (), s') \<and> I n s'"
  proof (rule Suc.hyps(1))
    show "k = nat (n - (i + 1))" using Suc.hyps(2) by linarith
    show "I (i + 1) s1" by (rule s1)
    show "i + 1 \<le> n" using lt by simp
    show "\<exists>s'. body j s = (Inr (), s') \<and> I (j + 1) s'" if "i + 1 \<le> j" "j < n" "I j s" for j s
      using Suc.prems(3)[of j s] that by simp
  qed
  then show ?case using s1 lt by (subst forLoop.simps) simp
qed

lemma forLoop2_rule:
  assumes init: "I 0 0 b" and W: "0 \<le> W" and H: "0 \<le> H"
    and step: "\<And>x y s. 0 \<le> x \<Longrightarrow> x < W \<Longrightarrow> 0 \<le> y \<Longrightarrow> y < H \<Longrightarrow> I x y s
                 \<Longrightarrow> \<exists>s'. body x y s = (Inr (), s') \<and> I x (y + 1) s'"
    and wrap: "\<And>x s. 0 \<le> x \<Longrightarrow> x < W \<Longrightarrow> I x H s \<Longrightarrow> I (x + 1) 0 s"
  shows "\<exists>s'. forLoop 0 W (\<lambda>x. forLoop 0 H (body x)) b = (Inr (), s') \<and> I W 0 s'"
proof (rule forLoop_rule[where I = "\<lambda>x. I x 0"])
  show "I 0 0 b" by (rule init)
  show "0 \<le> W" by (rule W)
  fix x s assume x: "0 \<le> x" "x < W" and I: "I x 0 s"
  have "\<exists>s'. forLoop 0 H (body x) s = (Inr (), s') \<and> I x H s'"
    by (rule forLoop_rule[where I = "I x"]) (use I H x step in auto)
  then show "\<exists>s'. forLoop 0 H (body x) s = (Inr (), s') \<and> I (x + 1) 0 s'"
    using wrap[OF x] by blast
qed

lemma nth_opt_Some: "0 \<le> i \<Longrightarrow> i < int (length xs) \<Longrightarrow> nth_opt xs i = Some (xs ! nat i)"
  by (simp add: nth_opt_def)

lemma nth_opt_None: "\<not> (0 \<le> i \<and> i < int (length xs)) \<Longrightarrow> nth_opt xs i = None"
  by (simp add: nth_opt_def)

lemma wf_col_length:
  "wf_board b \<Longrightarrow> 0 \<le> i \<Longrightarrow> i < width b \<Longrightarrow> length (cells b ! nat i) = nat (height b)"
  by (simp add: wf_board_def list_all_length)

lemma wf_ncol_length:
  "wf_board b \<Longrightarrow> 0 \<le> i \<Longrightarrow> i < width b \<Longrightarrow> length (next_buf b ! nat i) = nat (height b)"
  by (simp add: wf_board_def list_all_length)

lemma cellAt_in: "wf_board b \<Longrightarrow> inBounds b i j \<Longrightarrow> cellAt b i j = Inr (cellv b i j)"
  by (simp add: cellAt_def inBounds_def cellv_def nth_opt_def wf_col_length)
     (simp add: wf_board_def)

lemma cellAt_out:
  assumes "wf_board b" and "\<not> inBounds b i j"
  shows "cellAt b i j = Inl TypeError"
proof (cases "0 \<le> i \<and> i < width b")
  case True
  then have col: "nth_opt (cells b) i = Some (cells b ! nat i)"
    using assms(1) by (simp add: nth_opt_def wf_board_def)
  have "length (cells b ! nat i) = nat (height b)"
    using True assms(1) by (simp add: wf_col_length)
  then have "nth_opt (cells b ! nat i) j = None"
    using True assms(2) by (auto simp add: nth_opt_def inBounds_def)
  with col show ?thesis by (simp add: cellAt_def)
next
  case False
  then have "nth_opt (cells b) i = None"
    using assms(1) by (auto simp add: nth_opt_def wf_board_def)
  then show ?thesis by (simp add: cellAt_def)
qed

lemma setCell_fields [simp]:
  "width (setCell b x y c) = width b" "height (setCell b x y c) = height b"
  "next_buf (setCell b x y c) = next_buf b"
  by (simp_all add: setCell_def)

lemma inBounds_setCell [simp]: "inBounds (setCell b x y c) i j = inBounds b i j"
  by (simp add: inBounds_def)

lemma wf_setCell:
  assumes "wf_board b"
  shows "wf_board (setCell b x y c)"
proof -
  have "length (((cells b)[nat x := (cells b ! nat x)[nat y := c]]) ! n) = nat (height b)"
    if "n < length (cells b)" for n
    using that assms by (cases "n = nat x") (simp_all add: wf_board_def list_all_length)
  then show ?thesis
    using assms by (simp add: wf_board_def setCell_def list_all_length)
qed

lemma cellv_setCell:
  "wf_board b \<Longrightarrow> inBounds b x y \<Longrightarrow> inBounds b i j \<Longrightarrow>
   cellv (setCell b x y c) i j = (if i = x \<and> j = y then c else cellv b i j)"
  by (auto simp add: cellv_def setCell_def inBounds_def nth_list_update wf_col_length wf_board_def)

lemma map_filter_concat:
  "map f (filter P xs) = concat (map (\<lambda>p. if P p then [f p] else []) xs)"
  by (induction xs) simp_all

lemma visit_eq:
  assumes "wf_board b" and "g \<Longrightarrow> inBounds b i j"
  shows "visit b g i j acc = Inr (acc @ (if g \<and> isAlive (cellv b i j) then [cellv b i j] else []))"
  using assms by (cases g) (simp_all add: visit_def cellAt_in)

lemma collectNeighbors_eq:
  assumes wf: "wf_board b" and inb: "inBounds b x y"
  shows "collectNeighbors b x y = Inr (livingNeighbors b x y)"
proof -
  have g: "inBounds b (x - 1) y = (x \<noteq> 0)"
    "inBounds b (x - 1) (y - 1) = (x \<noteq> 0 \<and> y \<noteq> 0)"
    "inBounds b x (y - 1) = (y \<noteq> 0)"
    "inBounds b (x + 1) (y - 1) = (x \<noteq> width b - 1 \<and> y \<noteq> 0)"
    "inBounds b (x + 1) y = (x \<noteq> width b - 1)"
    "inBounds b (x + 1) (y + 1) = (x \<noteq> width b - 1 \<and> y \<noteq> height b - 1)"
    "inBounds b x (y + 1) = (y \<noteq> height b - 1)"
    "inBounds b (x - 1) (y + 1) = (x \<noteq> 0 \<and> y \<noteq> height b - 1)"
    using inb by (auto simp add: inBounds_def)
  have v: "visit b g i j acc = Inr (acc @ (if alive b i j then [cellv b i j] else []))"
    if "inBounds b i j = g" for g i j acc
    using visit_eq[OF wf, of g i j acc] that by (auto simp add: alive_def)
  note vs = g[THEN v]
  show ?thesis
    unfolding collectNeighbors_def vs thenE_def livingNeighbors_def map_filter_concat
      neighborCoords_def
    by (simp split del: if_split cong: if_cong)
qed

lemma cellv_nth_opt:
  assumes "wf_board b" and "inBounds b x y"
  shows "nth_opt (cells b) x = Some (cells b ! nat x)"
    and "nth_opt (cells b ! nat x) y = Some (cellv b x y)"
    and "nth_opt (next_buf b) x = Some (next_buf b ! nat x)"
    and "nth_opt (next_buf b ! nat x) y = Some (nextv b x y)"
  using assms
  by (simp_all add: nth_opt_def inBounds_def wf_col_length wf_ncol_length cellv_def nextv_def)
     (simp_all add: wf_board_def)

lemma getLivingNeighbors_eq:
  assumes "wf_board b" and "inBounds b x y"
  shows "getLivingNeighbors x y b = (Inr (length (livingNeighbors b x y)), recolor b x y)"
  using assms
  by (simp add: getLivingNeighbors_def collectNeighbors_eq cellv_nth_opt recolor_def)

lemma writeNext_eq:
  assumes "wf_board b" and "inBounds b x y"
  shows "writeNext x y v b = (Inr (), setNext b x y v)"
proof -
  have "js_set (next_buf b ! nat x) y v = (next_buf b ! nat x)[nat y := v]"
    using assms by (simp add: js_set_def inBounds_def wf_ncol_length)
  then show ?thesis
    using assms by (simp add: writeNext_def cellv_nth_opt setNext_def)
qed

lemma recolor_alive: "isAlive (cellv b x y) \<Longrightarrow> recolor b x y = b"
  by (simp add: recolor_def)

lemma wf_recolor: "wf_board b \<Longrightarrow> wf_board (recolor b x y)"
  by (simp add: recolor_def wf_setCell)

lemma recolor_fields [simp]:
  "width (recolor b x y) = width b" "height (recolor b x y) = height b"
  "next_buf (recolor b x y) = next_buf b"
  by (simp_all add: recolor_def)

lemma inBounds_recolor [simp]: "inBounds (recolor b x y) i j = inBounds b i j"
  by (simp add: inBounds_def)

lemma findNextCell_eq:
  assumes wf: "wf_board b" and inb: "inBounds b x y"
  shows "findNextCell x y b =
           (Inr (), setNext (recolor b x y) x y
                      (lifeRule (isAlive (cellv b x y)) (length (livingNeighbors b x y))))"
proof (cases "isAlive (cellv b x y)")
  case True
  then show ?thesis
    using wf inb
    by (simp add: findNextCell_def bindS_def readCell_def cellAt_in cellv_nth_opt ret_def
        getLivingNeighbors_eq recolor_alive writeNext_eq lifeRule_def)
next
  case False
  then show ?thesis
    using wf inb
    by (simp add: findNextCell_def bindS_def readCell_def cellAt_in cellv_nth_opt ret_def
        getLivingNeighbors_eq writeNext_eq wf_recolor lifeRule_def)
qed

lemma applyNextCell_eq:
  assumes "wf_board b" and "inBounds b x y"
  shows "applyNextCell x y b = (Inr (), setCell b x y (applyCell (cellv b x y) (nextv b x y)))"
  using assms by (simp add: applyNextCell_def cellv_nth_opt)

lemma setNext_fields [simp]:
  "width (setNext b x y v) = width b" "height (setNext b x y v) = height b"
  "cells (setNext b x y v) = cells b"
  by (simp_all add: setNext_def)

lemma cellv_setNext [simp]: "cellv (setNext b x y v) i j = cellv b i j"
  by (simp add: cellv_def)

lemma inBounds_setNext [simp]: "inBounds (setNext b x y v) i j = inBounds b i j"
  by (simp add: inBounds_def)

lemma wf_setNext:
  assumes "wf_board b"
  shows "wf_board (setNext b x y v)"
proof -
  have "length (((next_buf b)[nat x := (next_buf b ! nat x)[nat y := v]]) ! n) = nat (height b)"
    if "n < length (next_buf b)" for n
    using that assms by (cases "n = nat x") (simp_all add: wf_board_def list_all_length)
  then show ?thesis
    using assms by (simp add: wf_board_def setNext_def list_all_length)
qed

lemma nextv_setNext:
  "wf_board b \<Longrightarrow> inBounds b x y \<Longrightarrow> inBounds b i j \<Longrightarrow>
   nextv (setNext b x y v) i j = (if i = x \<and> j = y then v else nextv b i j)"
  by (auto simp add: nextv_def setNext_def inBounds_def nth_list_update wf_ncol_length wf_board_def)

lemma cellv_recolor:
  "wf_board b \<Longrightarrow> inBounds b x y \<Longrightarrow> inBounds b i j \<Longrightarrow>
   cellv (recolor b x y) i j = (if i = x \<and> j = y then pass1Cell b x y else cellv b i j)"
  by (simp add: recolor_def pass1Cell_def cellv_setCell)

lemma inBounds_cong: "width b = width b0 \<Longrightarrow> height b = height b0 \<Longrightarrow> inBounds b = inBounds b0"
  by (simp add: inBounds_def fun_eq_iff)

lemma livingNeighbors_cong:
  assumes "width b = width b0" and "height b = height b0"
    and same: "\<And>i j. inBounds b0 i j \<Longrightarrow> isAlive (cellv b i j) = isAlive (cellv b0 i j)
                 \<and> (isAlive (cellv b0 i j) \<longrightarrow> cellv b i j = cellv b0 i j)"
  shows "livingNeighbors b x y = livingNeighbors b0 x y"
proof -
  have ib: "inBounds b = inBounds b0" using assms(1,2) by (rule inBounds_cong)
  have a: "alive b i j = alive b0 i j" for i j
    using same[of i j] by (auto simp add: alive_def ib)
  have c: "alive b0 i j \<Longrightarrow> cellv b i j = cellv b0 i j" for i j
    using same[of i j] by (simp add: alive_def)
  have "map (\<lambda>(i, j). cellv b i j) (filter (\<lambda>(i, j). alive b0 i j) ps) =
        map (\<lambda>(i, j). cellv b0 i j) (filter (\<lambda>(i, j). alive b0 i j) ps)" for ps
    by (rule map_cong) (auto simp add: c)
  then show ?thesis by (simp add: livingNeighbors_def a)
qed

lemma pass1Cell_isAlive [simp]: "isAlive (pass1Cell b i j) = isAlive (cellv b i j)"
  by (simp add: pass1Cell_def)

lemma pass1Cell_alive: "isAlive (cellv b i j) \<Longrightarrow> pass1Cell b i j = cellv b i j"
  by (simp add: pass1Cell_def)

lemma Inv1_livingNeighbors:
  assumes "Inv1 b0 X Y b"
  shows "livingNeighbors b x y = livingNeighbors b0 x y"
proof (rule livingNeighbors_cong)
  show "width b = width b0" "height b = height b0" using assms by (simp_all add: Inv1_def)
  fix i j assume "inBounds b0 i j"
  then have "cellv b i j = (if proc X Y i j then pass1Cell b0 i j else cellv b0 i j)"
    using assms by (simp add: Inv1_def)
  then show "isAlive (cellv b i j) = isAlive (cellv b0 i j)
                 \<and> (isAlive (cellv b0 i j) \<longrightarrow> cellv b i j = cellv b0 i j)"
    by (simp add: pass1Cell_alive)
qed

lemma proc_next: "proc X (Y + 1) i j = (proc X Y i j \<or> (i = X \<and> j = Y))"
  by (auto simp add: proc_def)

lemma proc_self [simp]: "\<not> proc X Y X Y"
  by (simp add: proc_def)

lemma Inv1_step:
  assumes inv: "Inv1 b0 X Y b" and inb: "inBounds b0 X Y"
  shows "\<exists>b'. findNextCell X Y b = (Inr (), b') \<and> Inv1 b0 X (Y + 1) b'"
proof -
  from inv have wf: "wf_board b" and dims: "width b = width b0" "height b = height b0"
    by (simp_all add: Inv1_def)
  have ib: "inBounds b = inBounds b0" using dims by (rule inBounds_cong)
  have inb': "inBounds b X Y" using inb by (simp add: ib)
  have cXY: "cellv b X Y = cellv b0 X Y"
    using inv inb by (simp add: Inv1_def)
  have LN: "livingNeighbors b X Y = livingNeighbors b0 X Y"
    using inv by (rule Inv1_livingNeighbors)
  have p1: "pass1Cell b X Y = pass1Cell b0 X Y"
    by (simp add: pass1Cell_def cXY LN)
  define b1 where "b1 = recolor b X Y"
  define b' where "b' = setNext b1 X Y (nextRule b0 X Y)"
  have run: "findNextCell X Y b = (Inr (), b')"
    using wf inb' by (simp add: findNextCell_eq b'_def b1_def nextRule_def cXY LN)
  have wf1: "wf_board b1" using wf by (simp add: b1_def wf_recolor)
  have ib1: "inBounds b1 = inBounds b0" by (simp add: b1_def ib fun_eq_iff)
  have "Inv1 b0 X (Y + 1) b'"
    unfolding Inv1_def
  proof (intro conjI allI impI)
    show "wf_board b'" using wf1 by (simp add: b'_def wf_setNext)
    show "width b' = width b0" "height b' = height b0" by (simp_all add: b'_def b1_def dims)
    fix i j assume ij: "inBounds b0 i j"
    have old: "cellv b i j = (if proc X Y i j then pass1Cell b0 i j else cellv b0 i j)"
      and oldn: "proc X Y i j \<Longrightarrow> nextv b i j = nextRule b0 i j"
      using inv ij by (simp_all add: Inv1_def)
    have "cellv b' i j = (if i = X \<and> j = Y then pass1Cell b0 X Y else cellv b i j)"
      using wf inb' ij by (simp add: b'_def b1_def cellv_recolor ib p1)
    then show "cellv b' i j = (if proc X (Y + 1) i j then pass1Cell b0 i j else cellv b0 i j)"
      using old by (auto simp add: proc_next)
    assume pr: "proc X (Y + 1) i j"
    have "nextv b' i j = (if i = X \<and> j = Y then nextRule b0 X Y else nextv b1 i j)"
      using wf1 inb ij by (simp add: b'_def nextv_setNext ib1)
    moreover have "nextv b1 i j = nextv b i j" by (simp add: b1_def nextv_def)
    ultimately show "nextv b' i j = nextRule b0 i j"
      using pr oldn by (auto simp add: proc_next)
  qed
  with run show ?thesis by blast
qed

lemma proc_wrap: "0 \<le> j \<Longrightarrow> j < H \<Longrightarrow> proc X H i j = proc (X + 1) 0 i j"
  by (auto simp add: proc_def)

lemma Inv1_wrap: "Inv1 b0 X (height b0) b \<Longrightarrow> Inv1 b0 (X + 1) 0 b"
  by (simp add: Inv1_def inBounds_def proc_wrap)

lemma findNext_eq:
  assumes wf: "wf_board b"
  shows "\<exists>b'. findNext b = (Inr (), b') \<and> wf_board b' \<and> width b' = width b \<and> height b' = height b
           \<and> (\<forall>i j. inBounds b i j \<longrightarrow> cellv b' i j = pass1Cell b i j \<and> nextv b' i j = nextRule b i j)"
proof -
  have "\<exists>b'. forLoop 0 (width b) (\<lambda>x. forLoop 0 (height b) (findNextCell x)) b = (Inr (), b')
           \<and> Inv1 b (width b) 0 b'"
  proof (rule forLoop2_rule[where I = "Inv1 b"])
    show "Inv1 b 0 0 b" using wf by (simp add: Inv1_def proc_def inBounds_def)
    show "0 \<le> width b" "0 \<le> height b" using wf by (simp_all add: wf_board_def)
    show "\<exists>s'. findNextCell x y s = (Inr (), s') \<and> Inv1 b x (y + 1) s'"
      if "0 \<le> x" "x < width b" "0 \<le> y" "y < height b" "Inv1 b x y s" for x y s
      using that by (intro Inv1_step) (simp_all add: inBounds_def)
    show "Inv1 b (x + 1) 0 s" if "Inv1 b x (height b) s" for x s
      using that by (rule Inv1_wrap)
  qed
  then obtain b' where run: "findNext b = (Inr (), b')" and inv: "Inv1 b (width b) 0 b'"
    by (auto simp add: findNext_def)
  have "proc (width b) 0 i j" if "inBounds b i j" for i j
    using that by (simp add: proc_def inBounds_def)
  with inv have "\<forall>i j. inBounds b i j \<longrightarrow> cellv b' i j = pass1Cell b i j \<and> nextv b' i j = nextRule b i j"
    by (simp add: Inv1_def)
  with run inv show ?thesis by (simp add: Inv1_def)
qed


lemma Inv2_step:
  assumes inv: "Inv2 F b0 X Y b" and inb: "inBounds b0 X Y"
  shows "Inv2 F b0 X (Y + 1) (setCell b X Y (F X Y (cellv b X Y)))"
proof -
  from inv have wf: "wf_board b" and dims: "width b = width b0" "height b = height b0"
    by (simp_all add: Inv2_def)
  have ib: "inBounds b = inBounds b0" using dims by (rule inBounds_cong)
  have cXY: "cellv b X Y = cellv b0 X Y"
    using inv inb by (simp add: Inv2_def)
  show ?thesis
    unfolding Inv2_def
  proof (intro conjI allI impI)
    show "wf_board (setCell b X Y (F X Y (cellv b X Y)))" using wf by (rule wf_setCell)
    show "width (setCell b X Y (F X Y (cellv b X Y))) = width b0"
      "height (setCell b X Y (F X Y (cellv b X Y))) = height b0"
      "next_buf (setCell b X Y (F X Y (cellv b X Y))) = next_buf b0"
      using inv by (simp_all add: Inv2_def)
    fix i j assume ij: "inBounds b0 i j"
    have old: "cellv b i j = (if proc X Y i j then F i j (cellv b0 i j) else cellv b0 i j)"
      using inv ij by (simp add: Inv2_def)
    have "cellv (setCell b X Y (F X Y (cellv b X Y))) i j =
            (if i = X \<and> j = Y then F X Y (cellv b0 X Y) else cellv b i j)"
      using wf inb ij by (simp add: cellv_setCell ib cXY)
    then show "cellv (setCell b X Y (F X Y (cellv b X Y))) i j =
            (if proc X (Y + 1) i j then F i j (cellv b0 i j) else cellv b0 i j)"
      using old by (auto simp add: proc_next)
  qed
qed

lemma Inv2_wrap: "Inv2 F b0 X (height b0) b \<Longrightarrow> Inv2 F b0 (X + 1) 0 b"
  by (simp add: Inv2_def inBounds_def proc_wrap)

lemma cellLoop_eq:
  assumes wf: "wf_board b"
    and body: "\<And>x y s. wf_board s \<Longrightarrow> inBounds s x y \<Longrightarrow> next_buf s = next_buf b \<Longrightarrow>
                 body x y s = (Inr (), setCell s x y (F x y (cellv s x y)))"
  shows "\<exists>b'. forLoop 0 (width b) (\<lambda>x. forLoop 0 (height b) (body x)) b = (Inr (), b')
           \<and> wf_board b' \<and> width b' = width b \<and> height b' = height b \<and> next_buf b' = next_buf b
           \<and> (\<forall>i j. inBounds b i j \<longrightarrow> cellv b' i j = F i j (cellv b i j))"
proof -
  have "\<exists>b'. forLoop 0 (width b) (\<lambda>x. forLoop 0 (height b) (body x)) b = (Inr (), b')
           \<and> Inv2 F b (width b) 0 b'"
  proof (rule forLoop2_rule[where I = "Inv2 F b"])
    show "Inv2 F b 0 0 b" using wf by (simp add: Inv2_def proc_def inBounds_def)
    show "0 \<le> width b" "0 \<le> height b" using wf by (simp_all add: wf_board_def)
    show "\<exists>s'. body x y s = (Inr (), s') \<and> Inv2 F b x (y + 1) s'"
      if "0 \<le> x" "x < width b" "0 \<le> y" "y < height b" "Inv2 F b x y s" for x y s
    proof -
      have ib: "inBounds b x y" using that by (simp add: inBounds_def)
      have "inBounds s x y" using that by (simp add: inBounds_def Inv2_def)
      then have "body x y s = (Inr (), setCell s x y (F x y (cellv s x y)))"
        using that(5) by (intro body) (simp_all add: Inv2_def)
      then show ?thesis using Inv2_step[OF that(5) ib] by simp
    qed
    show "Inv2 F b (x + 1) 0 s" if "Inv2 F b x (height b) s" for x s
      using that by (rule Inv2_wrap)
  qed
  then obtain b' where run: "forLoop 0 (width b) (\<lambda>x. forLoop 0 (height b) (body x)) b = (Inr (), b')"
    and inv: "Inv2 F b (width b) 0 b'"
    by auto
  have "proc (width b) 0 i j" if "inBounds b i j" for i j
    using that by (simp add: proc_def inBounds_def)
  with inv have "\<forall>i j. inBounds b i j \<longrightarrow> cellv b' i j = F i j (cellv b i j)"
    by (simp add: Inv2_def)
  with run inv show ?thesis by (simp add: Inv2_def)
qed

lemma applyNext_eq:
  assumes wf: "wf_board b"
  shows "\<exists>b'. applyNext b = (Inr (), b') \<and> wf_board b' \<and> width b' = width b \<and> height b' = height b
           \<and> next_buf b' = next_buf b
           \<and> (\<forall>i j. inBounds b i j \<longrightarrow> cellv b' i j = applyCell (cellv b i j) (nextv b i j))"
  unfolding applyNext_def
  by (rule cellLoop_eq[OF wf, where F = "\<lambda>i j c. applyCell c (nextv b i j)"])
     (simp add: applyNextCell_eq nextv_def)

lemma clear_eq:
  assumes wf: "wf_board b"
  shows "\<exists>b'. clear b = (Inr (), b') \<and> wf_board b' \<and> width b' = width b \<and> height b' = height b
           \<and> next_buf b' = next_buf b
           \<and> (\<forall>i j. inBounds b i j \<longrightarrow> cellv b' i j = kill (cellv b i j))"
  unfolding clear_def
  by (rule cellLoop_eq[OF wf, where F = "\<lambda>i j c. kill c"])
     (simp add: bindS_def readCell_def writeCell_def cellAt_in)

lemma update_eq:
  assumes wf: "wf_board b"
  shows "\<exists>b'. update b = (Inr (), b') \<and> wf_board b' \<and> width b' = width b \<and> height b' = height b
           \<and> (\<forall>i j. inBounds b i j \<longrightarrow>
                  cellv b' i j = applyCell (pass1Cell b i j) (nextRule b i j)
                  \<and> nextv b' i j = nextRule b i j)"
proof -
  from findNext_eq[OF wf] obtain b1 where
    r1: "findNext b = (Inr (), b1)" and wf1: "wf_board b1"
    and d1: "width b1 = width b" "height b1 = height b"
    and c1: "\<And>i j. inBounds b i j \<Longrightarrow> cellv b1 i j = pass1Cell b i j \<and> nextv b1 i j = nextRule b i j"
    by blast
  from applyNext_eq[OF wf1] obtain b2 where
    r2: "applyNext b1 = (Inr (), b2)" and wf2: "wf_board b2"
    and d2: "width b2 = width b1" "height b2 = height b1" and n2: "next_buf b2 = next_buf b1"
    and c2: "\<And>i j. inBounds b1 i j \<Longrightarrow> cellv b2 i j = applyCell (cellv b1 i j) (nextv b1 i j)"
    by blast
  have ib: "inBounds b1 = inBounds b" using d1 by (rule inBounds_cong)
  have "update b = (Inr (), b2)" by (simp add: update_def bindS_def r1 r2)
  moreover have "cellv b2 i j = applyCell (pass1Cell b i j) (nextRule b i j)
                  \<and> nextv b2 i j = nextRule b i j" if "inBounds b i j" for i j
    using c1[OF that] c2[of i j] that by (simp add: ib nextv_def n2)
  ultimately show ?thesis using wf2 d1 d2 by auto
qed

lemma cells_ext:
  assumes "wf_board b" and "wf_board b'" and "width b' = width b" and "height b' = height b"
    and eq: "\<And>i j. inBounds b i j \<Longrightarrow> cellv b' i j = cellv b i j"
  shows "cells b' = cells b"
proof (rule nth_equalityI)
  show len: "length (cells b') = length (cells b)" using assms by (simp add: wf_board_def)
  fix n assume n: "n < length (cells b')"
  then have nw: "int n < width b" using assms(2,3) by (simp add: wf_board_def)
  show "cells b' ! n = cells b ! n"
  proof (rule nth_equalityI)
    show "length (cells b' ! n) = length (cells b ! n)"
      using wf_col_length[OF assms(1), of "int n"] wf_col_length[OF assms(2), of "int n"] nw assms(3,4)
      by simp
    fix m assume "m < length (cells b' ! n)"
    then have "int m < height b"
      using wf_col_length[OF assms(2), of "int n"] nw assms(3,4) by simp
    then have "inBounds b (int n) (int m)" using nw by (simp add: inBounds_def)
    from eq[OF this] show "cells b' ! n ! m = cells b ! n ! m" by (simp add: cellv_def)
  qed
qed


lemma wf_Board: "0 \<le> w \<Longrightarrow> 0 \<le> h \<Longrightarrow> wf_board (Board w h)"
  by (simp add: wf_board_def Board_def list_all_iff)

lemma Board_fields [simp]: "width (Board w h) = w" "height (Board w h) = h"
  by (simp_all add: Board_def)

lemma cellv_Board: "inBounds (Board w h) i j \<Longrightarrow> cellv (Board w h) i j = Cell i j None"
  by (simp add: cellv_def Board_def inBounds_def)

lemma cellOk_applyCell: "cellOk c \<Longrightarrow> cellOk (applyCell c n)"
  by (auto simp add: cellOk_def applyCell_def kill_def)

lemma cellOk_pass1Cell: "cellOk (cellv b i j) \<Longrightarrow> cellOk (pass1Cell b i j)"
  by (auto simp add: cellOk_def pass1Cell_def)

lemma cellOk_toggle: "cellOk c \<Longrightarrow> cellOk (toggle col c)"
  by (auto simp add: cellOk_def toggle_def kill_def)

lemma cellOk_kill: "cellOk (kill c)"
  by (simp add: cellOk_def kill_def)

lemma clickCell_in:
  "wf_board b \<Longrightarrow> inBounds b x y \<Longrightarrow>
   clickCell x y col b = (Inr (), setCell b x y (toggle col (cellv b x y)))"
  by (simp add: clickCell_def bindS_def readCell_def writeCell_def cellAt_in)

lemma clickCell_out:
  "wf_board b \<Longrightarrow> \<not> inBounds b x y \<Longrightarrow> clickCell x y col b = (Inl TypeError, b)"
  by (simp add: clickCell_def bindS_def readCell_def cellAt_out)

lemma reachable_inv:
  assumes "reachable b"
  shows "wf_board b \<and> (\<forall>i j. inBounds b i j \<longrightarrow> cellOk (cellv b i j))"
  using assms
proof (induction rule: reachable.induct)
  case (init w h)
  then show ?case by (simp add: wf_Board cellv_Board cellOk_def Cell_def)
next
  case (upd b)
  then have wf: "wf_board b" and ok: "\<And>i j. inBounds b i j \<Longrightarrow> cellOk (cellv b i j)"
    by simp_all
  from update_eq[OF wf] obtain b' where r: "update b = (Inr (), b')" and wf': "wf_board b'"
    and d: "width b' = width b" "height b' = height b"
    and c: "\<And>i j. inBounds b i j \<Longrightarrow> cellv b' i j = applyCell (pass1Cell b i j) (nextRule b i j)"
    by blast
  have "inBounds b' = inBounds b" using d by (rule inBounds_cong)
  then show ?case using r wf' c ok by (simp add: cellOk_applyCell cellOk_pass1Cell)
next
  case (click b x y col)
  then have wf: "wf_board b" and ok: "\<And>i j. inBounds b i j \<Longrightarrow> cellOk (cellv b i j)"
    by simp_all
  show ?case
  proof (cases "inBounds b x y")
    case True
    then show ?thesis
      using wf ok by (simp add: clickCell_in wf_setCell cellv_setCell cellOk_toggle)
  next
    case False
    then show ?thesis using wf ok by (simp add: clickCell_out)
  qed
next
  case (clr b)
  then have wf: "wf_board b" by simp
  from clear_eq[OF wf] obtain b' where r: "clear b = (Inr (), b')" and wf': "wf_board b'"
    and d: "width b' = width b" "height b' = height b"
    and c: "\<And>i j. inBounds b i j \<Longrightarrow> cellv b' i j = kill (cellv b i j)"
    by blast
  have "inBounds b' = inBounds b" using d by (rule inBounds_cong)
  then show ?case using r wf' c by (simp add: cellOk_kill)
next
  case (killed b x y)
  then show ?case by (simp add: wf_setCell cellv_setCell cellOk_kill)
qed


lemma allDead_cellv:
  assumes "wf_board b"
  shows "allDead b = (\<forall>i j. inBounds b i j \<longrightarrow> \<not> isAlive (cellv b i j))"
proof
  assume ad: "allDead b"
  show "\<forall>i j. inBounds b i j \<longrightarrow> \<not> isAlive (cellv b i j)"
  proof (intro allI impI)
    fix i j assume ib: "inBounds b i j"
    then have "nat i < length (cells b)" "nat j < length (cells b ! nat i)"
      using assms wf_col_length[OF assms, of i] by (simp_all add: inBounds_def wf_board_def)
    then show "\<not> isAlive (cellv b i j)"
      using ad by (simp add: allDead_def list_all_length cellv_def)
  qed
next
  assume d: "\<forall>i j. inBounds b i j \<longrightarrow> \<not> isAlive (cellv b i j)"
  have "\<not> isAlive (cells b ! n ! m)" if "n < length (cells b)" "m < length (cells b ! n)" for n m
  proof -
    have "int n < width b" using that(1) assms by (simp add: wf_board_def)
    moreover have "int m < height b"
      using that(2) wf_col_length[OF assms, of "int n"] calculation by simp
    ultimately have "inBounds b (int n) (int m)" by (simp add: inBounds_def)
    with d have "\<not> isAlive (cellv b (int n) (int m))" by blast
    then show ?thesis by (simp add: cellv_def)
  qed
  then show "allDead b" by (simp add: allDead_def list_all_length)
qed

lemma livingNeighbors_length: "length (livingNeighbors b x y) \<le> 8"
proof -
  have "length (livingNeighbors b x y) \<le> length (neighborCoords x y)"
    by (simp add: livingNeighbors_def)
  then show ?thesis by (simp add: neighborCoords_def)
qed

lemma isAlive_applyCell [simp]: "isAlive (applyCell c n) = n"
  by (auto simp add: applyCell_def kill_def)

lemma livingNeighbors_allDead:
  assumes "\<And>i j. inBounds b i j \<Longrightarrow> \<not> isAlive (cellv b i j)"
  shows "livingNeighbors b x y = []"
  using assms by (auto simp add: livingNeighbors_def alive_def filter_empty_conv)

lemma update_allDead:
  assumes wf: "wf_board b" and ad: "allDead b"
  shows "\<exists>b'. update b = (Inr (), b') \<and> cells b' = cells b \<and> wf_board b'
           \<and> width b' = width b \<and> height b' = height b \<and> allDead b'"
proof -
  have d: "\<not> isAlive (cellv b i j)" if "inBounds b i j" for i j
    using ad that by (simp add: allDead_cellv[OF wf])
  have LN: "livingNeighbors b x y = []" for x y
    using d by (rule livingNeighbors_allDead)
  from update_eq[OF wf] obtain b' where r: "update b = (Inr (), b')" and wf': "wf_board b'"
    and dm: "width b' = width b" "height b' = height b"
    and c: "\<And>i j. inBounds b i j \<Longrightarrow> cellv b' i j = applyCell (pass1Cell b i j) (nextRule b i j)"
    by blast
  have same: "cellv b' i j = cellv b i j" if "inBounds b i j" for i j
    using c[OF that] d[OF that] by (simp add: pass1Cell_def nextRule_def lifeRule_def LN applyCell_def)
  have "cells b' = cells b" using wf wf' dm same by (rule cells_ext)
  then show ?thesis using r wf' dm ad by (simp add: allDead_def)
qed

lemma reachable_corner3: "reachable corner3"
  unfolding corner3_def by (intro reachable.intros) simp_all

lemma reachable_revived: "reachable revived"
  unfolding revived_def by (intro reachable.intros reachable_corner3)

lemma inheritColor_3:
  "inheritColor [n1, n2, n3] 3 =
     ''#'' @ substr (color n1) 1 2 @ substr (color n2) 3 2 @ substr (color n3) 5 2"
proof -
  have "[0..<3] = [0, 1, 2]" by (simp add: upt_rec)
  then show ?thesis by (simp add: inheritColor_def)
qed

lemma channels_of_inherited:
  assumes "3 \<le> length c1" and "5 \<le> length c2"
  shows "red (''#'' @ substr c1 1 2 @ substr c2 3 2 @ substr c3 5 2) = red c1"
    and "green (''#'' @ substr c1 1 2 @ substr c2 3 2 @ substr c3 5 2) = green c2"
    and "blue (''#'' @ substr c1 1 2 @ substr c2 3 2 @ substr c3 5 2) = blue c3"
  using assms by (simp_all add: red_def green_def blue_def substr_def)

lemma mem_allCoords: "(i, j) \<in> set (allCoords W H) \<longleftrightarrow> 0 \<le> i \<and> i < W \<and> 0 \<le> j \<and> j < H"
  by (auto simp add: allCoords_def)

lemma mem_aliveSet: "(i, j) \<in> aliveSet b \<longleftrightarrow> alive b i j"
  by (auto simp add: aliveSet_def mem_allCoords alive_def inBounds_def)

lemma aliveSet_update:
  assumes wf: "wf_board b" and r: "update b = (Inr (), b')"
  shows "aliveSet b' = lifeStep (width b) (height b) (aliveSet b)"
proof -
  from update_eq[OF wf] r have d: "width b' = width b" "height b' = height b"
    and c: "\<And>i j. inBounds b i j \<Longrightarrow> cellv b' i j = applyCell (pass1Cell b i j) (nextRule b i j)"
    by auto
  have ib: "inBounds b' = inBounds b" using d by (rule inBounds_cong)
  have S: "(\<lambda>p. p \<in> aliveSet b) = (\<lambda>(i, j). alive b i j)"
    by (auto simp add: mem_aliveSet fun_eq_iff)
  have n: "nextRule b i j =
             lifeRule ((i, j) \<in> aliveSet b) (length (filter (\<lambda>p. p \<in> aliveSet b) (neighborCoords i j)))"
    if "inBounds b i j" for i j
    using that by (simp add: nextRule_def livingNeighbors_def S mem_aliveSet alive_def)
  have "(i, j) \<in> aliveSet b' \<longleftrightarrow> (i, j) \<in> lifeStep (width b) (height b) (aliveSet b)" for i j
  proof (cases "inBounds b i j")
    case True
    then have "(i, j) \<in> aliveSet b' \<longleftrightarrow> nextRule b i j"
      using c[OF True] by (simp add: mem_aliveSet alive_def ib)
    also have "\<dots> \<longleftrightarrow> (i, j) \<in> lifeStep (width b) (height b) (aliveSet b)"
      using True n[OF True] by (simp add: lifeStep_def mem_allCoords inBounds_def)
    finally show ?thesis .
  next
    case False
    then show ?thesis
      by (auto simp add: mem_aliveSet alive_def ib lifeStep_def mem_allCoords inBounds_def)
  qed
  then show ?thesis by auto
qed

lemma blinker_steps:
  "lifeStep 5 5 {(1, 2), (2, 2), (3, 2)} = {(2, 1), (2, 2), (2, 3)}"
  "lifeStep 5 5 {(2, 1), (2, 2), (2, 3)} = {(1, 2), (2, 2), (3, 2)}"
  by code_simp+

section \<open>The claims\<close>

text \<open>
  C1. The first pass of \<^verbatim>\<open>update\<close> (\<open>findNext\<close>) runs without an exception on every
  well-formed board and leaves in \<^verbatim>\<open>next[x][y]\<close>, for every cell \<open>(x, y)\<close> of the board, the
  verdict of the standard rule on the board as it was before the update: a live cell
  stays alive exactly when it has 2 or 3 living neighbours, a dead cell comes alive
  exactly when it has 3.
\<close>

theorem findNext_standard_rule:
  assumes "wf_board b"
  shows "\<exists>b'. findNext b = (Inr (), b') \<and>
           (\<forall>x y. inBounds b x y \<longrightarrow>
              nextv b' x y =
                (if isAlive (cellv b x y)
                 then neighborCount b x y = 2 \<or> neighborCount b x y = 3
                 else neighborCount b x y = 3))"
  using findNext_eq[OF assms] by (auto simp add: nextRule_def lifeRule_def neighborCount_def)

theorem findNext_standard_rule_witness:
  "wf_board corner3 \<and>
   (\<exists>b'. findNext corner3 = (Inr (), b') \<and> nextv b' 0 0 \<and> nextv b' 1 1)"
proof -
  have wf: "wf_board corner3" by code_simp
  have ib: "inBounds corner3 0 0" "inBounds corner3 1 1" by code_simp+
  have n: "neighborCount corner3 0 0 = 2" "neighborCount corner3 1 1 = 3" by code_simp+
  have a: "isAlive (cellv corner3 0 0)" "\<not> isAlive (cellv corner3 1 1)" by code_simp+
  show ?thesis
    using findNext_standard_rule[OF wf] ib wf n a by auto
qed

text \<open>
  C2. A dead cell with exactly three living neighbours is alive after \<^verbatim>\<open>update\<close>, and its
  colour takes the red channel of the first living neighbour, the green channel of the
  second and the blue channel of the third, the neighbours being listed from the left
  one clockwise (\<open>neighborCoords\<close>). A channel is the pair of characters the code cuts
  out with \<^verbatim>\<open>substr\<close>; the first parent's string has to reach its red channel and the
  second parent's its green channel, as every \<^verbatim>\<open>#rrggbb\<close> does.
\<close>

theorem birth_color:
  assumes "wf_board b" and "inBounds b x y" and "\<not> isAlive (cellv b x y)"
    and "livingNeighbors b x y = [n1, n2, n3]"
    and "3 \<le> length (color n1)" and "5 \<le> length (color n2)"
  shows "\<exists>b'. update b = (Inr (), b') \<and> isAlive (cellv b' x y) \<and>
           red (color (cellv b' x y)) = red (color n1) \<and>
           green (color (cellv b' x y)) = green (color n2) \<and>
           blue (color (cellv b' x y)) = blue (color n3)"
proof -
  from update_eq[OF assms(1)] obtain b' where r: "update b = (Inr (), b')"
    and c: "\<And>i j. inBounds b i j \<Longrightarrow> cellv b' i j = applyCell (pass1Cell b i j) (nextRule b i j)"
    by blast
  have nr: "nextRule b x y" using assms(3,4) by (simp add: nextRule_def lifeRule_def)
  have p1: "pass1Cell b x y = (cellv b x y)\<lparr>color := inheritColor [n1, n2, n3] 3\<rparr>"
    using assms(3,4) by (simp add: pass1Cell_def)
  have "cellv b' x y = (cellv b x y)\<lparr>color := inheritColor [n1, n2, n3] 3, isAlive := True\<rparr>"
    using c[OF assms(2)] assms(3) by (simp add: nr p1 applyCell_def)
  then have "isAlive (cellv b' x y)"
    and "color (cellv b' x y) =
           ''#'' @ substr (color n1) 1 2 @ substr (color n2) 3 2 @ substr (color n3) 5 2"
    by (simp_all add: inheritColor_3)
  then show ?thesis
    using r channels_of_inherited[OF assms(5,6), of "color n3"] by simp
qed

theorem birth_color_witness:
  "wf_board corner3 \<and> inBounds corner3 1 1 \<and> \<not> isAlive (cellv corner3 1 1) \<and>
   livingNeighbors corner3 1 1 = [cellv corner3 0 1, cellv corner3 0 0, cellv corner3 1 0] \<and>
   color (cellv corner3 0 1) = ''#112233'' \<and> color (cellv corner3 0 0) = ''#445566'' \<and>
   color (cellv corner3 1 0) = ''#778899'' \<and>
   (\<exists>b'. update corner3 = (Inr (), b') \<and> isAlive (cellv b' 1 1) \<and>
      red (color (cellv b' 1 1)) = ''11'' \<and> green (color (cellv b' 1 1)) = ''55'' \<and>
      blue (color (cellv b' 1 1)) = ''99'')"
proof -
  have wf: "wf_board corner3" by code_simp
  have ib: "inBounds corner3 1 1" by code_simp
  have d: "\<not> isAlive (cellv corner3 1 1)" by code_simp
  have ln: "livingNeighbors corner3 1 1 = [cellv corner3 0 1, cellv corner3 0 0, cellv corner3 1 0]"
    by code_simp
  have col: "color (cellv corner3 0 1) = ''#112233''" "color (cellv corner3 0 0) = ''#445566''"
    "color (cellv corner3 1 0) = ''#778899''"
    by code_simp+
  have l: "3 \<le> length (color (cellv corner3 0 1))" "5 \<le> length (color (cellv corner3 0 0))"
    by (simp_all add: col)
  have ch: "red ''#112233'' = ''11''" "green ''#445566'' = ''55''" "blue ''#778899'' = ''99''"
    by (simp_all add: red_def green_def blue_def substr_def)
  show ?thesis
    using birth_color[OF wf ib d ln l] wf ib d ln col ch by simp
qed

text \<open>
  C3. The claim is what the code's own comment and the README promise (0.1 more for
  each generation survived, "a maximum of 1"), and the code misses it. The additions
  are on doubles: the cell (1,1) of \<open>corner3\<close> is born by the first update with maturity
  0.1 and then survives every generation; after 2 generations its maturity is
  0.30000000000000004, after 9 it is 0.9999999999999999 and not 1, so the test
  \<^verbatim>\<open>cell.maturity < 1\<close> lets the tenth addition through and the maturity becomes
  1.0999999999999999, above 1, where it stays.
\<close>

theorem maturity_not_capped:
  "\<not> isAlive (cellv corner3 1 1) \<and>
   history 11 1 1 corner3 =
     [(True, lit_0_1),
      (True, Double 7205759403792794 (- 55)),
      (True, Double 5404319552844596 (- 54)),
      (True, Double 7205759403792794 (- 54)),
      (True, Double 4503599627370496 (- 53)),
      (True, Double 5404319552844595 (- 53)),
      (True, Double 6305039478318694 (- 53)),
      (True, Double 7205759403792793 (- 53)),
      (True, Double 8106479329266892 (- 53)),
      (True, Double 9007199254740991 (- 53)),
      (True, Double 4953959590107545 (- 52))] \<and>
   Double 9007199254740991 (- 53) \<noteq> lit_1 \<and>
   dless lit_1 (Double 4953959590107545 (- 52))"
  by code_simp

text \<open>
  C4, as stated, fails: the first pass does write to a cell. \<^verbatim>\<open>getLivingNeighbors\<close>, which
  the first pass calls, assigns the inherited colour to a dead cell with three living
  neighbours. On \<open>corner3\<close> the dead cell (1,1) has its colour changed by the first pass
  alone.
\<close>

theorem first_pass_writes_color:
  "fst (findNext corner3) = Inr () \<and>
   color (cellv corner3 1 1) = ''#000000'' \<and>
   color (cellv (snd (findNext corner3)) 1 1) = ''#115599''"
  by code_simp

text \<open>
  C4, amended. The first pass changes neither the alive status nor the maturity of any
  cell, and no colour except that of a dead cell with exactly three living neighbours,
  which receives the inherited colour already in this pass; the verdicts go to the
  staging buffer.
\<close>

theorem first_pass_frame:
  assumes "wf_board b"
  shows "\<exists>b'. findNext b = (Inr (), b') \<and> width b' = width b \<and> height b' = height b \<and>
           (\<forall>x y. inBounds b x y \<longrightarrow>
              isAlive (cellv b' x y) = isAlive (cellv b x y) \<and>
              maturity (cellv b' x y) = maturity (cellv b x y) \<and>
              (isAlive (cellv b x y) \<or> neighborCount b x y \<noteq> 3 \<longrightarrow>
                 color (cellv b' x y) = color (cellv b x y)) \<and>
              (\<not> isAlive (cellv b x y) \<and> neighborCount b x y = 3 \<longrightarrow>
                 color (cellv b' x y) = inheritColor (livingNeighbors b x y) 3))"
proof -
  from findNext_eq[OF assms] obtain b' where r: "findNext b = (Inr (), b')"
    and d: "width b' = width b" "height b' = height b"
    and c: "\<And>i j. inBounds b i j \<Longrightarrow> cellv b' i j = pass1Cell b i j"
    by blast
  have "isAlive (cellv b' x y) = isAlive (cellv b x y) \<and>
              maturity (cellv b' x y) = maturity (cellv b x y) \<and>
              (isAlive (cellv b x y) \<or> neighborCount b x y \<noteq> 3 \<longrightarrow>
                 color (cellv b' x y) = color (cellv b x y)) \<and>
              (\<not> isAlive (cellv b x y) \<and> neighborCount b x y = 3 \<longrightarrow>
                 color (cellv b' x y) = inheritColor (livingNeighbors b x y) 3)"
    if "inBounds b x y" for x y
    using c[OF that] by (simp add: pass1Cell_def neighborCount_def)
  with r d show ?thesis by blast
qed

theorem first_pass_frame_witness:
  "wf_board corner3 \<and>
   (\<exists>b'. findNext corner3 = (Inr (), b') \<and>
      isAlive (cellv b' 0 0) \<and> maturity (cellv b' 0 0) = lit_0_1 \<and>
      color (cellv b' 0 0) = ''#445566'' \<and>
      \<not> isAlive (cellv b' 1 1) \<and>
      color (cellv b' 1 1) = inheritColor (livingNeighbors corner3 1 1) 3)"
proof -
  have wf: "wf_board corner3" by code_simp
  have ib: "inBounds corner3 0 0" "inBounds corner3 1 1" by code_simp+
  have f: "isAlive (cellv corner3 0 0)" "maturity (cellv corner3 0 0) = lit_0_1"
    "color (cellv corner3 0 0) = ''#445566''" "\<not> isAlive (cellv corner3 1 1)"
    "neighborCount corner3 1 1 = 3"
    by code_simp+
  from first_pass_frame[OF wf] obtain b' where r: "findNext corner3 = (Inr (), b')"
    and c: "\<And>x y. inBounds corner3 x y \<Longrightarrow>
              isAlive (cellv b' x y) = isAlive (cellv corner3 x y) \<and>
              maturity (cellv b' x y) = maturity (cellv corner3 x y) \<and>
              (isAlive (cellv corner3 x y) \<or> neighborCount corner3 x y \<noteq> 3 \<longrightarrow>
                 color (cellv b' x y) = color (cellv corner3 x y)) \<and>
              (\<not> isAlive (cellv corner3 x y) \<and> neighborCount corner3 x y = 3 \<longrightarrow>
                 color (cellv b' x y) = inheritColor (livingNeighbors corner3 x y) 3)"
    by blast
  show ?thesis
    using r wf c[OF ib(1)] c[OF ib(2)] f by simp
qed

text \<open>
  C5. For every cell of a board the program can reach, \<^verbatim>\<open>toggle\<close> with the requested
  colour makes a dead cell alive with that colour and maturity 0.1 (the maturity is not
  assigned: it is 0.1 because the cell was dead), kills a live cell of the same colour,
  resetting its maturity to 0.1, and recolours a live cell of another colour, leaving
  it alive with its maturity; \<^verbatim>\<open>clickCell\<close> stores that cell.
\<close>

theorem toggle_cases:
  assumes "reachable b" and "inBounds b x y"
  shows "let c = cellv b x y; c' = toggle requestedColor c
         in (\<not> isAlive c \<longrightarrow>
               isAlive c' \<and> color c' = requestedColor \<and> maturity c' = lit_0_1) \<and>
            (isAlive c \<and> color c = requestedColor \<longrightarrow>
               \<not> isAlive c' \<and> maturity c' = lit_0_1) \<and>
            (isAlive c \<and> color c \<noteq> requestedColor \<longrightarrow>
               isAlive c' \<and> color c' = requestedColor \<and> maturity c' = maturity c) \<and>
            clickCell x y requestedColor b = (Inr (), setCell b x y c')"
proof -
  have ok: "cellOk (cellv b x y)" and wf: "wf_board b"
    using reachable_inv[OF assms(1)] assms(2) by simp_all
  then show ?thesis
    using assms(2) by (auto simp add: Let_def toggle_def kill_def cellOk_def clickCell_in)
qed

theorem toggle_cases_witness:
  "(let c = cellv revived 0 0; c' = toggle ''#00ff00'' c
    in \<not> isAlive c \<and> isAlive c' \<and> color c' = ''#00ff00'' \<and> maturity c' = lit_0_1) \<and>
   (let c = cellv corner3 0 0; c' = toggle ''#445566'' c
    in isAlive c \<and> color c = ''#445566'' \<and> \<not> isAlive c' \<and> maturity c' = lit_0_1) \<and>
   (let c = cellv (snd (update corner3)) 0 0; c' = toggle ''#00ff00'' c
    in isAlive c \<and> color c \<noteq> ''#00ff00'' \<and> isAlive c' \<and> color c' = ''#00ff00'' \<and>
       maturity c' = maturity c \<and> maturity c \<noteq> lit_0_1)"
proof -
  have r3: "reachable (snd (update corner3))" by (intro reachable.intros reachable_corner3)
  have ib: "inBounds revived 0 0" "inBounds corner3 0 0" "inBounds (snd (update corner3)) 0 0"
    by code_simp+
  have a: "\<not> isAlive (cellv revived 0 0)"
    "isAlive (cellv corner3 0 0)" "color (cellv corner3 0 0) = ''#445566''"
    "isAlive (cellv (snd (update corner3)) 0 0)"
    "color (cellv (snd (update corner3)) 0 0) \<noteq> ''#00ff00''"
    "maturity (cellv (snd (update corner3)) 0 0) \<noteq> lit_0_1"
    by code_simp+
  show ?thesis
    using toggle_cases[OF reachable_revived ib(1), of "''#00ff00''"]
      toggle_cases[OF reachable_corner3 ib(2), of "''#445566''"]
      toggle_cases[OF r3 ib(3), of "''#00ff00''"] a
    by (simp add: Let_def)
qed

text \<open>
  C6. In every state reached from a new board by \<^verbatim>\<open>update\<close>, clicks (\<^verbatim>\<open>toggle\<close>), \<^verbatim>\<open>kill\<close>
  and \<^verbatim>\<open>clear\<close>, every dead cell has maturity exactly 0.1.
\<close>

theorem dead_maturity_invariant:
  assumes "reachable b" and "inBounds b x y" and "\<not> isAlive (cellv b x y)"
  shows "maturity (cellv b x y) = lit_0_1"
  using reachable_inv[OF assms(1)] assms(2,3) by (auto simp add: cellOk_def)

theorem dead_maturity_invariant_witness:
  "reachable revived \<and> inBounds revived 0 0 \<and> \<not> isAlive (cellv revived 0 0) \<and>
   maturity (cellv (snd (update corner3)) 0 0) \<noteq> lit_0_1 \<and>
   maturity (cellv revived 0 0) = lit_0_1"
proof -
  have ib: "inBounds revived 0 0" by code_simp
  have d: "\<not> isAlive (cellv revived 0 0)" by code_simp
  have m: "maturity (cellv (snd (update corner3)) 0 0) \<noteq> lit_0_1" by code_simp
  show ?thesis
    using dead_maturity_invariant[OF reachable_revived ib d] reachable_revived ib d m by simp
qed

text \<open>
  C7. On any 5 by 5 board whose living cells are exactly (1,2), (2,2), (3,2), whatever
  the colours and maturities, one \<^verbatim>\<open>update\<close> leaves exactly (2,1), (2,2), (2,3) alive and a
  second one exactly (1,2), (2,2), (3,2) again.
\<close>

theorem blinker_period_2:
  assumes "wf_board b" and "width b = 5" and "height b = 5"
    and "aliveSet b = {(1, 2), (2, 2), (3, 2)}"
  shows "\<exists>b1 b2. update b = (Inr (), b1) \<and> aliveSet b1 = {(2, 1), (2, 2), (2, 3)} \<and>
                 update b1 = (Inr (), b2) \<and> aliveSet b2 = {(1, 2), (2, 2), (3, 2)}"
proof -
  from update_eq[OF assms(1)] obtain b1 where r1: "update b = (Inr (), b1)"
    and wf1: "wf_board b1" and d1: "width b1 = width b" "height b1 = height b"
    by blast
  from update_eq[OF wf1] obtain b2 where r2: "update b1 = (Inr (), b2)"
    by blast
  have a1: "aliveSet b1 = {(2, 1), (2, 2), (2, 3)}"
    using aliveSet_update[OF assms(1) r1] by (simp add: assms blinker_steps)
  have a2: "aliveSet b2 = {(1, 2), (2, 2), (3, 2)}"
    using aliveSet_update[OF wf1 r2] by (simp add: a1 d1 assms blinker_steps)
  show ?thesis using r1 r2 a1 a2 by blast
qed

theorem blinker_period_2_witness:
  "wf_board blinker \<and> width blinker = 5 \<and> height blinker = 5 \<and>
   aliveSet blinker = {(1, 2), (2, 2), (3, 2)} \<and>
   (\<exists>b1 b2. update blinker = (Inr (), b1) \<and> aliveSet b1 = {(2, 1), (2, 2), (2, 3)} \<and>
             update b1 = (Inr (), b2) \<and> aliveSet b2 = {(1, 2), (2, 2), (3, 2)})"
proof -
  have wf: "wf_board blinker" by code_simp
  have d: "width blinker = 5" "height blinker = 5" by code_simp+
  have a: "aliveSet blinker = {(1, 2), (2, 2), (3, 2)}" by code_simp
  show ?thesis
    using blinker_period_2[OF wf d a] wf d a by simp
qed

text \<open>
  C8. On a board where every cell is dead, \<^verbatim>\<open>update\<close> runs without an exception and
  leaves every cell dead, and indeed leaves \<^verbatim>\<open>cells\<close>, the width and the height as they
  were. Hence, on any board, \<^verbatim>\<open>clear\<close> gives a board of the same width and height in
  which every cell of the board is the killed cell it was, and the \<^verbatim>\<open>update\<close> that follows
  leaves that board of dead cells unchanged: every cell of the original board is dead
  after both.
\<close>

theorem no_spontaneous_generation:
  assumes "wf_board b"
  shows "(allDead b \<longrightarrow>
            (\<exists>b'. update b = (Inr (), b') \<and> allDead b' \<and> cells b' = cells b
                   \<and> width b' = width b \<and> height b' = height b
                   \<and> (\<forall>i j. inBounds b i j \<longrightarrow> \<not> isAlive (cellv b' i j)))) \<and>
         (\<exists>b1 b2. clear b = (Inr (), b1) \<and> wf_board b1
                   \<and> width b1 = width b \<and> height b1 = height b
                   \<and> (\<forall>i j. inBounds b i j \<longrightarrow> cellv b1 i j = kill (cellv b i j))
                   \<and> allDead b1 \<and> update b1 = (Inr (), b2) \<and>
                   allDead b2 \<and> cells b2 = cells b1
                   \<and> width b2 = width b1 \<and> height b2 = height b1
                   \<and> (\<forall>i j. inBounds b i j \<longrightarrow> \<not> isAlive (cellv b2 i j)))"
proof
  show "allDead b \<longrightarrow>
            (\<exists>b'. update b = (Inr (), b') \<and> allDead b' \<and> cells b' = cells b
                   \<and> width b' = width b \<and> height b' = height b
                   \<and> (\<forall>i j. inBounds b i j \<longrightarrow> \<not> isAlive (cellv b' i j)))"
  proof
    assume ad: "allDead b"
    from update_allDead[OF assms ad] obtain b' where r: "update b = (Inr (), b')"
      and c: "cells b' = cells b" and a': "allDead b'"
      and d: "width b' = width b" "height b' = height b"
      by blast
    have "\<not> isAlive (cellv b' i j)" if "inBounds b i j" for i j
      using ad that by (simp add: cellv_def c allDead_cellv[OF assms, unfolded cellv_def])
    with r c a' d
    show "\<exists>b'. update b = (Inr (), b') \<and> allDead b' \<and> cells b' = cells b
                   \<and> width b' = width b \<and> height b' = height b
                   \<and> (\<forall>i j. inBounds b i j \<longrightarrow> \<not> isAlive (cellv b' i j))"
      by blast
  qed
  from clear_eq[OF assms] obtain b1 where r: "clear b = (Inr (), b1)" and wf1: "wf_board b1"
    and d: "width b1 = width b" "height b1 = height b"
    and c: "\<And>i j. inBounds b i j \<Longrightarrow> cellv b1 i j = kill (cellv b i j)"
    by blast
  have ib: "inBounds b1 = inBounds b" using d by (rule inBounds_cong)
  then have ad: "allDead b1" using c by (simp add: allDead_cellv[OF wf1] kill_def)
  from update_allDead[OF wf1 ad] obtain b2 where r2: "update b1 = (Inr (), b2)"
    and c2: "cells b2 = cells b1" and a2: "allDead b2"
    and d2: "width b2 = width b1" "height b2 = height b1"
    by blast
  have dead2: "\<not> isAlive (cellv b2 i j)" if "inBounds b i j" for i j
    using c[OF that] by (simp add: cellv_def c2 kill_def)
  show "\<exists>b1 b2. clear b = (Inr (), b1) \<and> wf_board b1
                   \<and> width b1 = width b \<and> height b1 = height b
                   \<and> (\<forall>i j. inBounds b i j \<longrightarrow> cellv b1 i j = kill (cellv b i j))
                   \<and> allDead b1 \<and> update b1 = (Inr (), b2) \<and>
                   allDead b2 \<and> cells b2 = cells b1
                   \<and> width b2 = width b1 \<and> height b2 = height b1
                   \<and> (\<forall>i j. inBounds b i j \<longrightarrow> \<not> isAlive (cellv b2 i j))"
    using r wf1 d c ad r2 a2 c2 d2 dead2 by blast
qed

theorem no_spontaneous_generation_witness:
  "wf_board corner3 \<and> inBounds corner3 0 0 \<and> isAlive (cellv corner3 0 0) \<and>
   (\<exists>b1 b2. clear corner3 = (Inr (), b1) \<and> width b1 = 2 \<and> height b1 = 2 \<and>
             cellv b1 0 0 = kill (cellv corner3 0 0) \<and> allDead b1 \<and>
             update b1 = (Inr (), b2) \<and> allDead b2 \<and> cells b2 = cells b1 \<and>
             \<not> isAlive (cellv b2 0 0)) \<and>
   allDead (Board 2 2) \<and>
   (\<exists>b'. update (Board 2 2) = (Inr (), b') \<and> allDead b' \<and> cells b' = cells (Board 2 2) \<and>
         width b' = 2 \<and> height b' = 2)"
proof -
  have wf: "wf_board corner3" by code_simp
  have ib: "inBounds corner3 0 0" by code_simp
  have a: "isAlive (cellv corner3 0 0)" by code_simp
  have dm: "width corner3 = 2" "height corner3 = 2" by code_simp+
  have wf2: "wf_board (Board 2 2)" by (simp add: wf_Board)
  have ad: "allDead (Board 2 2)" by code_simp
  from no_spontaneous_generation[OF wf] obtain b1 b2 where
    "clear corner3 = (Inr (), b1)" "width b1 = width corner3" "height b1 = height corner3"
    "\<And>i j. inBounds corner3 i j \<Longrightarrow> cellv b1 i j = kill (cellv corner3 i j)"
    "allDead b1" "update b1 = (Inr (), b2)" "allDead b2" "cells b2 = cells b1"
    "\<And>i j. inBounds corner3 i j \<Longrightarrow> \<not> isAlive (cellv b2 i j)"
    by blast
  then have first: "\<exists>b1 b2. clear corner3 = (Inr (), b1) \<and> width b1 = 2 \<and> height b1 = 2 \<and>
             cellv b1 0 0 = kill (cellv corner3 0 0) \<and> allDead b1 \<and>
             update b1 = (Inr (), b2) \<and> allDead b2 \<and> cells b2 = cells b1 \<and>
             \<not> isAlive (cellv b2 0 0)"
    using ib dm by auto
  have "\<exists>b'. update (Board 2 2) = (Inr (), b') \<and> allDead b' \<and> cells b' = cells (Board 2 2) \<and>
         width b' = 2 \<and> height b' = 2"
    using no_spontaneous_generation[OF wf2] ad by auto
  with first wf ib a ad show ?thesis by blast
qed

text \<open>
  C9. On a well-formed board, \<^verbatim>\<open>getLivingNeighbors\<close> at a cell of the board returns a
  number (no read falls outside the arrays, which would be the TypeError of the model)
  and that number is at most 8; on a 1 by 1 board it is 0, and the only cell is dead
  after \<^verbatim>\<open>update\<close>, whatever it was before.
\<close>

theorem getLivingNeighbors_in_bounds:
  assumes "wf_board b" and "inBounds b x y"
  shows "(\<exists>n b'. getLivingNeighbors x y b = (Inr n, b') \<and> n \<le> 8 \<and> n = neighborCount b x y) \<and>
         (width b = 1 \<and> height b = 1 \<longrightarrow>
            fst (getLivingNeighbors x y b) = Inr 0 \<and>
            (\<exists>b'. update b = (Inr (), b') \<and> \<not> isAlive (cellv b' x y)))"
proof (intro conjI impI)
  show "\<exists>n b'. getLivingNeighbors x y b = (Inr n, b') \<and> n \<le> 8 \<and> n = neighborCount b x y"
    using assms by (simp add: getLivingNeighbors_eq livingNeighbors_length neighborCount_def)
next
  assume one: "width b = 1 \<and> height b = 1"
  then have xy: "x = 0" "y = 0" using assms(2) by (simp_all add: inBounds_def)
  have "\<not> alive b i j" if "(i, j) \<in> set (neighborCoords 0 0)" for i j
    using that one by (auto simp add: neighborCoords_def alive_def inBounds_def)
  then have LN: "livingNeighbors b 0 0 = []"
    by (auto simp add: livingNeighbors_def filter_empty_conv)
  show "fst (getLivingNeighbors x y b) = Inr 0"
    using assms by (simp add: getLivingNeighbors_eq xy LN)
  from update_eq[OF assms(1)] obtain b' where r: "update b = (Inr (), b')"
    and c: "\<And>i j. inBounds b i j \<Longrightarrow> cellv b' i j = applyCell (pass1Cell b i j) (nextRule b i j)"
    by blast
  have "\<not> isAlive (cellv b' x y)"
    using c[OF assms(2)] by (simp add: xy nextRule_def lifeRule_def LN)
  with r show "\<exists>b'. update b = (Inr (), b') \<and> \<not> isAlive (cellv b' x y)" by blast
qed

theorem getLivingNeighbors_in_bounds_witness:
  "wf_board single \<and> inBounds single 0 0 \<and> isAlive (cellv single 0 0) \<and>
   fst (getLivingNeighbors 0 0 single) = Inr 0 \<and>
   (\<exists>b'. update single = (Inr (), b') \<and> \<not> isAlive (cellv b' 0 0))"
proof -
  have wf: "wf_board single" by code_simp
  have ib: "inBounds single 0 0" by code_simp
  have a: "isAlive (cellv single 0 0)" by code_simp
  have d: "width single = 1 \<and> height single = 1" by code_simp
  show ?thesis
    using getLivingNeighbors_in_bounds[OF wf ib] wf ib a d by blast
qed

text \<open>
  C10. A click outside the board throws: \<^verbatim>\<open>this.cells[x][y].toggle()\<close> reads a property of
  \<^verbatim>\<open>undefined\<close>, which is a TypeError, before anything is written; the board is left as it
  was, and no cell inside the board is taken instead.
\<close>

theorem clickCell_out_of_bounds:
  assumes "wf_board b" and "\<not> inBounds b x y"
  shows "clickCell x y col b = (Inl TypeError, b)"
  using assms by (rule clickCell_out)

theorem clickCell_out_of_bounds_witness:
  "wf_board (Board 3 2) \<and> \<not> inBounds (Board 3 2) 3 0 \<and>
   clickCell 3 0 ''#ff0000'' (Board 3 2) = (Inl TypeError, Board 3 2) \<and>
   \<not> inBounds (Board 3 2) 1 (- 1) \<and>
   clickCell 1 (- 1) ''#ff0000'' (Board 3 2) = (Inl TypeError, Board 3 2)"
proof -
  have wf: "wf_board (Board 3 2)" by (simp add: wf_Board)
  have o1: "\<not> inBounds (Board 3 2) 3 0" and o2: "\<not> inBounds (Board 3 2) 1 (- 1)"
    by (simp_all add: inBounds_def)
  show ?thesis
    using wf o1 o2 clickCell_out_of_bounds[OF wf o1] clickCell_out_of_bounds[OF wf o2] by simp
qed

end
